theory Spec2Isabelle
  imports Main "HOL-Library.Word"
begin

unbundle bit_operations_syntax

section \<open>Bytes, failures and the character helpers\<close>

text \<open>
  A \<open>std::string\<close> is a list of bytes, kept as \<^typ>\<open>string\<close>.  Where the parser
  works on a byte with \<open>|=\<close> and \<open><<\<close> (hex and binary literals, hex and binary
  escapes) the byte is read as an 8-bit word.
\<close>

type_synonym byte = "8 word"

definition byte_of_char :: "char \<Rightarrow> byte" where
  "byte_of_char c = of_char c"

definition char_of_byte :: "byte \<Rightarrow> char" where
  "char_of_byte b = char_of (unat b)"

text \<open>
  \<open>Parse_error\<close> is a \<open>wpp::Exception\<close> thrown by the parser, with its message (the
  position is left out).  \<open>Undefined_behaviour\<close> marks a step the C++ standard gives no
  meaning to: \<open>front()\<close> or \<open>back()\<close> of an empty container, or moving a pointer
  past the terminating zero byte of a string and reading there.  \<open>Out_of_fuel\<close> is the
  recursion bound of the parser model.
\<close>

datatype error = Parse_error string | Undefined_behaviour | Out_of_fuel

text \<open>
  \<open>wpp::is_whitespace\<close> (frontend/char.hpp) and \<open>wpp::hex_to_digit\<close>
  (misc/util/util.hpp) are not among the sources: every function that calls them takes
  them as the fields of a parameter \<open>u\<close>.
\<close>

record util =
  is_whitespace :: "char \<Rightarrow> bool"
  hex_to_digit :: "char \<Rightarrow> byte"

text \<open>
  Modelled from the spec: the two helpers as the closed examples use them.  Whitespace is
  blank, tab, newline, vertical tab, form feed and carriage return; a hexadecimal digit
  has its value, any other byte the value 0.
\<close>

definition ascii_whitespace :: "char \<Rightarrow> bool" where
  "ascii_whitespace c \<longleftrightarrow>
     c = CHR '' '' \<or> c = CHR 0x09 \<or> c = CHR 0x0A \<or> c = CHR 0x0B \<or> c = CHR 0x0C \<or> c = CHR 0x0D"

definition ascii_hex_digit :: "char \<Rightarrow> byte" where
  "ascii_hex_digit c =
     (let n = (of_char c :: nat) in
      if 48 \<le> n \<and> n \<le> 57 then of_nat (n - 48)
      else if 97 \<le> n \<and> n \<le> 102 then of_nat (n - 87)
      else if 65 \<le> n \<and> n \<le> 70 then of_nat (n - 55)
      else 0)"

definition wpp_util :: util where
  "wpp_util = \<lparr>is_whitespace = ascii_whitespace, hex_to_digit = ascii_hex_digit\<rparr>"

text \<open>\<open>front()\<close> and \<open>back()\<close>: both require a non-empty container.\<close>

definition str_front :: "'a list \<Rightarrow> error + 'a" where
  "str_front str = (case str of [] \<Rightarrow> Inl Undefined_behaviour | c # _ \<Rightarrow> Inr c)"

definition str_back :: "'a list \<Rightarrow> error + 'a" where
  "str_back str = (if str = [] then Inl Undefined_behaviour else Inr (last str))"

text \<open>
  A \<open>const char*\<close> or iterator into a string is the list of bytes from its position
  on; reading it at the end of the string gives the terminating zero byte.
\<close>

definition NUL :: char where
  "NUL = CHR 0x00"

definition deref :: "string \<Rightarrow> char" where
  "deref it = (case it of [] \<Rightarrow> NUL | c # _ \<Rightarrow> c)"

section \<open>Tokens and the lexer\<close>

datatype token_type =
    TOKEN_EOF | TOKEN_CHAR | TOKEN_IDENTIFIER
  | TOKEN_LPAREN | TOKEN_RPAREN | TOKEN_LBRACE | TOKEN_RBRACE
  | TOKEN_COMMA | TOKEN_CAT | TOKEN_ARROW | TOKEN_EQUAL | TOKEN_STAR | TOKEN_EXCLAIM
  | TOKEN_QUOTE | TOKEN_DOUBLEQUOTE
  | TOKEN_LET | TOKEN_VAR | TOKEN_DROP | TOKEN_PREFIX | TOKEN_MAP
  | TOKEN_SMART | TOKEN_HEX | TOKEN_BIN
  | TOKEN_ESCAPE_DOUBLEQUOTE | TOKEN_ESCAPE_QUOTE | TOKEN_ESCAPE_BACKSLASH
  | TOKEN_ESCAPE_NEWLINE | TOKEN_ESCAPE_TAB | TOKEN_ESCAPE_CARRIAGERETURN
  | TOKEN_ESCAPE_HEX | TOKEN_ESCAPE_BIN
  | TOKEN_RUN | TOKEN_FILE | TOKEN_ASSERT | TOKEN_PIPE | TOKEN_ERROR | TOKEN_SOURCE
  | TOKEN_ESCAPE | TOKEN_EVAL | TOKEN_SLICE | TOKEN_FIND | TOKEN_LENGTH | TOKEN_LOG

record token =
  type :: token_type
  view :: string

datatype lexer_mode = mode_normal | mode_string | mode_character

text \<open>
  Modelled from the spec: the lexer (frontend/lexer is not among the sources).  Its state
  is the list of tokens it has still to hand out, each with the bytes of its view; past
  the last one it hands out \<open>TOKEN_EOF\<close>.  The normal and the string mode hand out
  the next token.  \<open>lex.peek(m)\<close> is \<open>peek m lx\<close>; \<open>lex.advance(m)\<close> returns
  \<open>peek m lx\<close> and leaves the lexer \<open>advance m lx\<close>.
\<close>

type_synonym lexer = "token list"

definition eof_token :: token where
  "eof_token = \<lparr>type = TOKEN_EOF, view = []\<rparr>"

text \<open>
  Modelled from the spec: the bytes of the source a token was read from.  A view is a
  slice of the source, so they are the view, except for an escape sequence:
  \<open>accumulate_string\<close> reads the view of a hex or a binary escape as the digits alone,
  without the backslash and the letter in front of them.  The text of an escape is
  therefore written out from the escape forms of the specification: a backslash and then
  a double quote, a quote, a backslash, \<open>n\<close>, \<open>t\<close>, \<open>r\<close>, \<open>x\<close> with its
  hex digits or \<open>b\<close> with its binary digits.
\<close>

definition is_escape :: "token_type \<Rightarrow> bool" where
  "is_escape ty \<longleftrightarrow> ty \<in> {TOKEN_ESCAPE_DOUBLEQUOTE, TOKEN_ESCAPE_QUOTE, TOKEN_ESCAPE_BACKSLASH,
     TOKEN_ESCAPE_NEWLINE, TOKEN_ESCAPE_TAB, TOKEN_ESCAPE_CARRIAGERETURN,
     TOKEN_ESCAPE_HEX, TOKEN_ESCAPE_BIN}"

definition source_text :: "token \<Rightarrow> string" where
  "source_text t =
     (if type t = TOKEN_ESCAPE_DOUBLEQUOTE then [CHR 0x5C, CHR 0x22]
      else if type t = TOKEN_ESCAPE_QUOTE then [CHR 0x5C, CHR 0x27]
      else if type t = TOKEN_ESCAPE_BACKSLASH then [CHR 0x5C, CHR 0x5C]
      else if type t = TOKEN_ESCAPE_NEWLINE then [CHR 0x5C, CHR ''n'']
      else if type t = TOKEN_ESCAPE_TAB then [CHR 0x5C, CHR ''t'']
      else if type t = TOKEN_ESCAPE_CARRIAGERETURN then [CHR 0x5C, CHR ''r'']
      else if type t = TOKEN_ESCAPE_HEX then CHR 0x5C # CHR ''x'' # view t
      else if type t = TOKEN_ESCAPE_BIN then CHR 0x5C # CHR ''b'' # view t
      else view t)"

text \<open>
  Modelled from the spec: the character mode hands out exactly one raw byte, the first
  byte of the source at the lexer's position, which is the first byte of the text the
  next token was read from.  \<open>advance\<close> in character mode takes that one byte.  A
  token of a single byte is then used up; of a longer one the other bytes stay in front
  of the list, as the rest of that token or, behind the backslash of an escape, as a
  chunk of literal bytes.
\<close>

fun peek :: "lexer_mode \<Rightarrow> lexer \<Rightarrow> token" where
  "peek m [] = eof_token"
| "peek mode_character (t # lx) = \<lparr>type = TOKEN_CHAR, view = take 1 (source_text t)\<rparr>"
| "peek m (t # lx) = t"

fun advance :: "lexer_mode \<Rightarrow> lexer \<Rightarrow> lexer" where
  "advance m [] = []"
| "advance mode_character (t # lx) =
     (if length (source_text t) \<le> 1 then lx
      else if is_escape (type t) then \<lparr>type = TOKEN_CHAR, view = tl (source_text t)\<rparr> # lx
      else t\<lparr>view := tl (view t)\<rparr> # lx)"
| "advance m (t # lx) = lx"

lemma advance_shorter:
  "type (peek m lx) \<noteq> TOKEN_EOF \<Longrightarrow> m \<noteq> mode_character \<Longrightarrow> length (advance m lx) < length lx"
  by (cases lx; cases m) (simp_all add: eof_token_def)

lemma advance_length_le: "length (advance m lx) \<le> length lx"
  by (cases lx; cases m) simp_all

text \<open>
  Modelled from the spec: the token classes of frontend/parser/parser.hpp (not among the
  sources), after the grammar of the specification and the dispatch of \<open>expression\<close>,
  \<open>string\<close> and \<open>statement\<close> below.
\<close>

definition peek_is_intrinsic :: "token \<Rightarrow> bool" where
  "peek_is_intrinsic tok \<longleftrightarrow>
     type tok \<in> set [TOKEN_RUN, TOKEN_FILE, TOKEN_ASSERT, TOKEN_PIPE, TOKEN_ERROR, TOKEN_SOURCE,
       TOKEN_ESCAPE, TOKEN_EVAL, TOKEN_SLICE, TOKEN_FIND, TOKEN_LENGTH, TOKEN_LOG]"

definition peek_is_keyword :: "token \<Rightarrow> bool" where
  "peek_is_keyword tok \<longleftrightarrow>
     type tok \<in> set [TOKEN_LET, TOKEN_VAR, TOKEN_DROP, TOKEN_PREFIX, TOKEN_MAP]"

definition peek_is_reserved_name :: "token \<Rightarrow> bool" where
  "peek_is_reserved_name tok \<longleftrightarrow> peek_is_intrinsic tok \<or> peek_is_keyword tok"

definition peek_is_call :: "token \<Rightarrow> bool" where
  "peek_is_call tok \<longleftrightarrow> type tok = TOKEN_IDENTIFIER \<or> peek_is_intrinsic tok"

definition peek_is_string :: "token \<Rightarrow> bool" where
  "peek_is_string tok \<longleftrightarrow>
     type tok \<in> set [TOKEN_DOUBLEQUOTE, TOKEN_QUOTE, TOKEN_EXCLAIM, TOKEN_HEX, TOKEN_BIN, TOKEN_SMART]"

definition peek_is_expr :: "token \<Rightarrow> bool" where
  "peek_is_expr tok \<longleftrightarrow>
     type tok = TOKEN_MAP \<or> type tok = TOKEN_LBRACE \<or> type tok = TOKEN_EQUAL \<or>
     peek_is_string tok \<or> peek_is_call tok"

definition peek_is_stmt :: "token \<Rightarrow> bool" where
  "peek_is_stmt tok \<longleftrightarrow>
     type tok = TOKEN_LET \<or> type tok = TOKEN_VAR \<or> type tok = TOKEN_DROP \<or>
     type tok = TOKEN_PREFIX \<or> peek_is_expr tok"

section \<open>The syntax tree\<close>

text \<open>
  The parser stores nodes in an indexed store and links them by index.  A node is read
  here together with the nodes its indices lead to; positions are left out.  The
  \<open>NODE_EMPTY\<close> default case of a map is \<open>None\<close>.
\<close>

datatype node =
    Document "node list"
  | Fn string "string list" node
  | Var string node
  | Drop node
  | Pre "node list" "node list"
  | Block "node list" node
  | Map node "(node \<times> node) list" "node option"
  | FnInvoke string "node list"
  | Intrinsic token_type string "node list"
  | Codeify node
  | String string
  | Concat node node

section \<open>String literals\<close>

subsection \<open>Escape sequences\<close>

text \<open>
  \<open>accumulate_string\<close>.  A hex escape reads the two bytes at the start of the token's
  view; a view with fewer bytes would make the parser read source text outside the
  token, which the token list does not hold.
\<close>

definition accumulate_string :: "util \<Rightarrow> token \<Rightarrow> string \<Rightarrow> bool \<Rightarrow> error + string" where
  "accumulate_string u part literal handle_escapes =
     (if \<not> handle_escapes then Inr (literal @ view part)
      else if type part = TOKEN_ESCAPE_DOUBLEQUOTE then Inr (literal @ [CHR 0x22])
      else if type part = TOKEN_ESCAPE_QUOTE then Inr (literal @ [CHR 0x27])
      else if type part = TOKEN_ESCAPE_BACKSLASH then Inr (literal @ [CHR 0x5C])
      else if type part = TOKEN_ESCAPE_NEWLINE then Inr (literal @ [CHR 0x0A])
      else if type part = TOKEN_ESCAPE_TAB then Inr (literal @ [CHR 0x09])
      else if type part = TOKEN_ESCAPE_CARRIAGERETURN then Inr (literal @ [CHR 0x0D])
      else if type part = TOKEN_ESCAPE_HEX then
        (case view part of
           first_nibble # second_nibble # _ \<Rightarrow>
             Inr (literal @ [char_of_byte
               (push_bit 4 (hex_to_digit u first_nibble) OR hex_to_digit u second_nibble)])
         | _ \<Rightarrow> Inl Undefined_behaviour)
      else if type part = TOKEN_ESCAPE_BIN then
        Inr (literal @ [char_of_byte
          (foldl (\<lambda>val c. push_bit 1 val OR (byte_of_char c - byte_of_char CHR ''0'')) 0
             (view part))])
      else Inr (literal @ view part))"

subsection \<open>Normal and stringify strings\<close>

text \<open>Two tokens are compared by their types.\<close>

function normal_string_loop :: "util \<Rightarrow> token \<Rightarrow> lexer \<Rightarrow> string \<Rightarrow> error + (string \<times> lexer)" where
  "normal_string_loop u delim lx str =
     (if type (peek mode_string lx) \<noteq> type delim then
        if type (peek mode_string lx) = TOKEN_EOF then
          Inl (Parse_error ''reached EOF while parsing string.'')
        else
          (case accumulate_string u (peek mode_string lx) str True of
             Inl e \<Rightarrow> Inl e
           | Inr str' \<Rightarrow> normal_string_loop u delim (advance mode_string lx) str')
      else Inr (str, lx))"
  by pat_completeness auto
termination
  by (relation "measure (\<lambda>(u, delim, lx, str). length lx)")
     (auto intro: advance_shorter)

definition normal_string :: "util \<Rightarrow> lexer \<Rightarrow> string \<Rightarrow> error + (string \<times> lexer)" where
  "normal_string u lx str =
     (let delim = peek mode_string lx in
      case normal_string_loop u delim (advance mode_string lx) str of
        Inl e \<Rightarrow> Inl e
      | Inr (str', lx') \<Rightarrow> Inr (str', advance mode_normal lx'))"

definition stringify_string :: "lexer \<Rightarrow> string \<Rightarrow> error + (string \<times> lexer)" where
  "stringify_string lx str =
     (let lx1 = advance mode_normal lx in
      if type (peek mode_normal lx1) \<noteq> TOKEN_IDENTIFIER then
        Inl (Parse_error ''expected an identifier to follow !.'')
      else Inr (view (peek mode_normal lx1), advance mode_normal lx1))"

subsection \<open>Raw and paragraph strings\<close>

definition raw_string :: "string \<Rightarrow> string" where
  "raw_string str = str"

text \<open>
  \<open>std::unique(first, last, pred)\<close> followed by \<open>erase\<close>: of every run of
  neighbours related by \<open>pred\<close> only the first element is kept; each candidate is
  compared with the last element kept.
\<close>

fun unique :: "('a \<Rightarrow> 'a \<Rightarrow> bool) \<Rightarrow> 'a list \<Rightarrow> 'a list" where
  "unique pred [] = []"
| "unique pred [x] = [x]"
| "unique pred (x # y # xs) =
     (if pred x y then unique pred (x # xs) else x # unique pred (y # xs))"

definition para_string :: "util \<Rightarrow> string \<Rightarrow> error + string" where
  "para_string u str0 =
     (let str1 = unique (\<lambda>lhs rhs. is_whitespace u lhs \<and> is_whitespace u rhs) str0;
          str2 = map (\<lambda>c. if is_whitespace u c then CHR '' '' else c) str1
      in (case str_front str2 of
            Inl e \<Rightarrow> Inl e
          | Inr f \<Rightarrow>
              (let str3 = (if is_whitespace u f then tl str2 else str2)
               in (case str_back str3 of
                     Inl e \<Rightarrow> Inl e
                   | Inr b \<Rightarrow> Inr (if is_whitespace u b then butlast str3 else str3)))))"

text \<open>
  The paragraph transformation as the specification words it: every run of whitespace
  shrinks to its first byte, every whitespace byte becomes a blank, then one leading and
  one trailing whitespace byte are removed where there is one.
\<close>

function collapse_runs :: "(char \<Rightarrow> bool) \<Rightarrow> string \<Rightarrow> string" where
  "collapse_runs ws [] = []"
| "collapse_runs ws (c # cs) =
     (if ws c then c # collapse_runs ws (dropWhile ws cs) else c # collapse_runs ws cs)"
  by pat_completeness auto
termination
  by (relation "measure (\<lambda>(ws, cs). length cs)")
     (auto simp: le_imp_less_Suc length_dropWhile_le)

definition strip_one_leading :: "(char \<Rightarrow> bool) \<Rightarrow> string \<Rightarrow> string" where
  "strip_one_leading ws s = (case s of [] \<Rightarrow> [] | c # cs \<Rightarrow> if ws c then cs else s)"

definition strip_one_trailing :: "(char \<Rightarrow> bool) \<Rightarrow> string \<Rightarrow> string" where
  "strip_one_trailing ws s = (if s \<noteq> [] \<and> ws (last s) then butlast s else s)"

definition para_spec :: "util \<Rightarrow> string \<Rightarrow> string" where
  "para_spec u s =
     strip_one_trailing (is_whitespace u) (strip_one_leading (is_whitespace u)
       (map (\<lambda>c. if is_whitespace u c then CHR '' '' else c)
          (collapse_runs (is_whitespace u) s)))"

subsection \<open>Code strings\<close>

text \<open>
  Trimming trailing whitespace: the reverse iterator \<open>rit\<close> holds the bytes it has
  still to visit, last byte first; at the first byte that is not whitespace everything
  behind it is erased.
\<close>

fun trim_trailing :: "util \<Rightarrow> string \<Rightarrow> string \<Rightarrow> string" where
  "trim_trailing u str [] = str"
| "trim_trailing u str (c # rit) =
     (if \<not> is_whitespace u c then rev (c # rit) else trim_trailing u str rit)"

text \<open>
  Trimming leading whitespace: at a newline inside the leading whitespace everything up
  to and including it is erased and the scan starts again.
\<close>

fun trim_leading :: "util \<Rightarrow> string \<Rightarrow> string \<Rightarrow> string" where
  "trim_leading u str [] = str"
| "trim_leading u str (c # it) =
     (if \<not> is_whitespace u c then str
      else if c = CHR 0x0A then trim_leading u it it
      else trim_leading u str it)"

definition INT_MAX :: nat where
  "INT_MAX = 2147483647"

text \<open>\<open>while (wpp::is_whitespace(*it)) ++it, ++indent;\<close>\<close>

fun skip_indent :: "util \<Rightarrow> string \<Rightarrow> nat \<Rightarrow> error + (nat \<times> string)" where
  "skip_indent u [] indent =
     (if is_whitespace u NUL then Inl Undefined_behaviour else Inr (indent, []))"
| "skip_indent u (c # it) indent =
     (if is_whitespace u c then skip_indent u it (indent + 1) else Inr (indent, c # it))"

lemma skip_indent_length:
  "skip_indent u it indent = Inr (indent', it') \<Longrightarrow> length it' \<le> length it"
  by (induction u it indent rule: skip_indent.induct) (auto split: if_splits)

text \<open>
  Discovering the tab depth, \<open>for (auto it = str.begin(); *it; ++it)\<close>: after the
  whitespace behind a newline has been counted, the loop's own \<open>++it\<close> steps over the
  byte the count stopped at.
\<close>

function discover_indent :: "util \<Rightarrow> string \<Rightarrow> nat \<Rightarrow> error + nat" where
  "discover_indent u [] common_indent = Inr common_indent"
| "discover_indent u (c # it) common_indent =
     (if c = NUL then Inr common_indent
      else if c = CHR 0x0A then
        (case skip_indent u it 0 of
           Inl e \<Rightarrow> Inl e
         | Inr (indent, it') \<Rightarrow>
             (case it' of
                [] \<Rightarrow> Inl Undefined_behaviour
              | _ # it'' \<Rightarrow>
                  discover_indent u it''
                    (if indent < common_indent then indent else common_indent)))
      else discover_indent u it common_indent)"
  by pat_completeness auto
termination
  by (relation "measure (\<lambda>(u, it, common_indent). length it)")
     (auto dest: skip_indent_length)

text \<open>
  The lambda \<open>strip\<close>: \<open>ptr\<close> walks over at most \<open>common_indent\<close> whitespace
  bytes, which are then erased; the result is the string from the erased range on.
\<close>

fun strip :: "util \<Rightarrow> nat \<Rightarrow> string \<Rightarrow> nat \<Rightarrow> error + string" where
  "strip u common_indent [] count_whitespace =
     (if is_whitespace u NUL \<and> count_whitespace \<noteq> common_indent
      then Inl Undefined_behaviour else Inr [])"
| "strip u common_indent (c # ptr) count_whitespace =
     (if is_whitespace u c \<and> count_whitespace \<noteq> common_indent
      then strip u common_indent ptr (count_whitespace + 1) else Inr (c # ptr))"

lemma strip_length:
  "strip u common_indent ptr count_whitespace = Inr ptr' \<Longrightarrow> length ptr' \<le> length ptr"
  by (induction u common_indent ptr count_whitespace rule: strip.induct)
     (auto split: if_splits)

text \<open>
  \<open>while (*ptr) { if (*ptr == '\n') ptr = strip(++ptr); ++ptr; }\<close>: \<open>front\<close>
  holds the bytes in front of \<open>ptr\<close>.  After a strip the loop's \<open>++ptr\<close> steps
  over the first byte left of the line.
\<close>

function strip_lines :: "util \<Rightarrow> nat \<Rightarrow> string \<Rightarrow> string \<Rightarrow> error + string" where
  "strip_lines u common_indent front [] = Inr front"
| "strip_lines u common_indent front (c # ptr) =
     (if c = NUL then Inr (front @ c # ptr)
      else if c = CHR 0x0A then
        (case strip u common_indent ptr 0 of
           Inl e \<Rightarrow> Inl e
         | Inr ptr' \<Rightarrow>
             (case ptr' of
                [] \<Rightarrow> Inl Undefined_behaviour
              | d # ptr'' \<Rightarrow> strip_lines u common_indent (front @ [c, d]) ptr''))
      else strip_lines u common_indent (front @ [c]) ptr)"
  by pat_completeness auto
termination
  by (relation "measure (\<lambda>(u, common_indent, front, ptr). length ptr)")
     (auto dest: strip_length)

definition code_string :: "util \<Rightarrow> string \<Rightarrow> error + string" where
  "code_string u str0 =
     (let str1 = trim_trailing u str0 (rev str0);
          str2 = trim_leading u str1 str1
      in (case discover_indent u str2 INT_MAX of
            Inl e \<Rightarrow> Inl e
          | Inr common_indent \<Rightarrow>
              (case (if is_whitespace u (deref str2) then strip u common_indent str2 0
                     else Inr str2) of
                 Inl e \<Rightarrow> Inl e
               | Inr str3 \<Rightarrow> strip_lines u common_indent [] str3)))"

subsection \<open>Hex and binary strings\<close>

text \<open>
  \<open>for (size_t i = len; i > 0; i--)\<close> with \<open>c = ptr[i - 1]\<close>; the buffer is read as
  8-bit words.
\<close>

fun hex_string_loop :: "util \<Rightarrow> string \<Rightarrow> nat \<Rightarrow> nat \<Rightarrow> byte list \<Rightarrow> error + byte list" where
  "hex_string_loop u ptr 0 counter str = Inr str"
| "hex_string_loop u ptr (Suc j) counter str =
     (let c = ptr ! j in
      if c = CHR ''_'' then hex_string_loop u ptr j counter str
      else if counter AND 1 \<noteq> 0 then
        (case str_back str of
           Inl e \<Rightarrow> Inl e
         | Inr b \<Rightarrow>
             hex_string_loop u ptr j (counter + 1)
               (butlast str @ [b OR push_bit 4 (hex_to_digit u c)]))
      else hex_string_loop u ptr j (counter + 1) (str @ [hex_to_digit u c]))"

definition hex_string :: "util \<Rightarrow> lexer \<Rightarrow> string \<Rightarrow> error + (string \<times> lexer)" where
  "hex_string u lx str =
     (let ptr = view (peek mode_normal lx); len = length ptr in
      case hex_string_loop u ptr len 0 (map byte_of_char str) of
        Inl e \<Rightarrow> Inl e
      | Inr str' \<Rightarrow> Inr (map char_of_byte (rev str'), advance mode_normal lx))"

fun bin_string_loop :: "string \<Rightarrow> nat \<Rightarrow> nat \<Rightarrow> byte list \<Rightarrow> error + byte list" where
  "bin_string_loop ptr 0 counter str = Inr str"
| "bin_string_loop ptr (Suc j) counter str =
     (let c = ptr ! j in
      if c = CHR ''_'' then bin_string_loop ptr j counter str
      else if counter AND 7 \<noteq> 0 then
        (case str_back str of
           Inl e \<Rightarrow> Inl e
         | Inr b \<Rightarrow>
             bin_string_loop ptr j (counter + 1)
               (butlast str @
                  [b OR push_bit (counter AND 7) (byte_of_char c - byte_of_char CHR ''0'')]))
      else bin_string_loop ptr j (counter + 1) (str @ [byte_of_char c - byte_of_char CHR ''0'']))"

definition bin_string :: "lexer \<Rightarrow> string \<Rightarrow> error + (string \<times> lexer)" where
  "bin_string lx str =
     (let ptr = view (peek mode_normal lx); len = length ptr in
      case bin_string_loop ptr len 0 (map byte_of_char str) of
        Inl e \<Rightarrow> Inl e
      | Inr str' \<Rightarrow> Inr (map char_of_byte (rev str'), advance mode_normal lx))"

subsection \<open>Smart strings\<close>

text \<open>
  The loop of \<open>smart_string\<close>.  The quote is appended first, since it may belong to
  the string; when the byte behind it is the delimiter, that byte is skipped and the
  quote is removed again.
\<close>

function smart_string_loop ::
  "util \<Rightarrow> char \<Rightarrow> char \<Rightarrow> token \<Rightarrow> lexer \<Rightarrow> string \<Rightarrow> error + (string \<times> lexer)" where
  "smart_string_loop u str_type delim quote lx str =
     (if type (peek mode_string lx) = TOKEN_EOF then
        Inl (Parse_error ''reached EOF while parsing string.'')
      else if type (peek mode_string lx) = type quote then
        (case accumulate_string u (peek mode_string lx) str True of
           Inl e \<Rightarrow> Inl e
         | Inr str1 \<Rightarrow>
             (let lx1 = advance mode_string lx in
              if view (peek mode_character lx1) = [delim] then
                (if str1 = [] then Inl Undefined_behaviour
                 else Inr (butlast str1, advance mode_character lx1))
              else smart_string_loop u str_type delim quote lx1 str1))
      else
        (case accumulate_string u (peek mode_string lx) str (str_type \<noteq> CHR ''r'') of
           Inl e \<Rightarrow> Inl e
         | Inr str1 \<Rightarrow> smart_string_loop u str_type delim quote (advance mode_string lx) str1))"
  by pat_completeness auto
termination
  by (relation "measure (\<lambda>(u, str_type, delim, quote, lx, str). length lx)")
     (auto intro: advance_shorter)

text \<open>
  \<open>tok.view.at(0)\<close> is the type letter and \<open>tok.view.at(1)\<close> the delimiter; a view
  of fewer than two bytes has no such elements.
\<close>

definition smart_string :: "util \<Rightarrow> lexer \<Rightarrow> string \<Rightarrow> error + (string \<times> lexer)" where
  "smart_string u lx str =
     (let tok = peek mode_normal lx; lx1 = advance mode_normal lx in
      case view tok of
        str_type # delim # _ \<Rightarrow>
          (let quote = peek mode_string lx1; lx2 = advance mode_string lx1 in
           case smart_string_loop u str_type delim quote lx2 str of
             Inl e \<Rightarrow> Inl e
           | Inr (str1, lx3) \<Rightarrow>
               if str_type = CHR ''r'' then Inr (raw_string str1, lx3)
               else if str_type = CHR ''c'' then
                 (case code_string u str1 of Inl e \<Rightarrow> Inl e | Inr str2 \<Rightarrow> Inr (str2, lx3))
               else if str_type = CHR ''p'' then
                 (case para_string u str1 of Inl e \<Rightarrow> Inl e | Inr str2 \<Rightarrow> Inr (str2, lx3))
               else Inr (str1, lx3))
      | _ \<Rightarrow> Inl Undefined_behaviour)"

subsection \<open>Any string\<close>

definition string :: "util \<Rightarrow> lexer \<Rightarrow> error + (node \<times> lexer)" where
  "string u lx =
     (let literal = [] in
      case (if type (peek mode_normal lx) = TOKEN_HEX then hex_string u lx literal
            else if type (peek mode_normal lx) = TOKEN_BIN then bin_string lx literal
            else if type (peek mode_normal lx) = TOKEN_SMART then smart_string u lx literal
            else if type (peek mode_normal lx) = TOKEN_EXCLAIM then stringify_string lx literal
            else if type (peek mode_normal lx) = TOKEN_QUOTE
                  \<or> type (peek mode_normal lx) = TOKEN_DOUBLEQUOTE
              then normal_string u lx literal
            else Inr (literal, lx)) of
        Inl e \<Rightarrow> Inl e
      | Inr (literal', lx') \<Rightarrow> Inr (String literal', lx'))"

section \<open>The recursive-descent parser\<close>

text \<open>
  The parameter loop of \<open>let\<close>:
  \<open>while (lex.peek() == TOKEN_IDENTIFIER) { ... }\<close>.
\<close>

function let_parameters :: "lexer \<Rightarrow> string list \<Rightarrow> error + (string list \<times> lexer)" where
  "let_parameters lx parameters =
     (if type (peek mode_normal lx) = TOKEN_IDENTIFIER then
        (let id = view (peek mode_normal lx);
             lx1 = advance mode_normal lx;
             parameters1 = parameters @ [id]
         in if type (peek mode_normal lx1) = TOKEN_COMMA then
              let_parameters (advance mode_normal lx1) parameters1
            else if type (peek mode_normal lx1) \<noteq> TOKEN_RPAREN then
              Inl (Parse_error ''expecting comma to follow parameter name.'')
            else let_parameters lx1 parameters1)
      else Inr (parameters, lx))"
  by pat_completeness auto
termination
proof (relation "measure (\<lambda>(lx, parameters). length lx)")
  show "wf (measure (\<lambda>(lx, parameters). length lx))" by simp
next
  fix lx :: lexer and parameters :: "string list" and x xa xb
  assume "type (peek mode_normal lx) = TOKEN_IDENTIFIER" "xa = advance mode_normal lx"
  then have "length xa < length lx"
    by (simp add: advance_shorter)
  moreover have "length (advance mode_normal xa) \<le> length xa"
    by (rule advance_length_le)
  ultimately show "((advance mode_normal xa, xb), lx, parameters)
      \<in> measure (\<lambda>(lx, parameters). length lx)"
    and "((xa, xb), lx, parameters) \<in> measure (\<lambda>(lx, parameters). length lx)"
    by simp_all
qed

text \<open>
  The parsing functions call one another; the first argument after \<open>u\<close> bounds the
  depth of the calls.  A loop that parses statements or expressions is a function of
  its own, named after the function it belongs to.
\<close>

function let_fn :: "util \<Rightarrow> nat \<Rightarrow> lexer \<Rightarrow> error + (node \<times> lexer)"
  and var :: "util \<Rightarrow> nat \<Rightarrow> lexer \<Rightarrow> error + (node \<times> lexer)"
  and codeify :: "util \<Rightarrow> nat \<Rightarrow> lexer \<Rightarrow> error + (node \<times> lexer)"
  and drop_stmt :: "util \<Rightarrow> nat \<Rightarrow> lexer \<Rightarrow> error + (node \<times> lexer)"
  and fninvoke :: "util \<Rightarrow> nat \<Rightarrow> lexer \<Rightarrow> error + (node \<times> lexer)"
  and fninvoke_arguments ::
    "util \<Rightarrow> nat \<Rightarrow> lexer \<Rightarrow> node list \<Rightarrow> error + (node list \<times> lexer)"
  and prefix :: "util \<Rightarrow> nat \<Rightarrow> lexer \<Rightarrow> error + (node \<times> lexer)"
  and prefix_statements ::
    "util \<Rightarrow> nat \<Rightarrow> lexer \<Rightarrow> node list \<Rightarrow> error + (node list \<times> lexer)"
  and block :: "util \<Rightarrow> nat \<Rightarrow> lexer \<Rightarrow> error + (node \<times> lexer)"
  and block_statements ::
    "util \<Rightarrow> nat \<Rightarrow> lexer \<Rightarrow> node list \<Rightarrow> error + (node list \<times> bool \<times> lexer)"
  and map_expr :: "util \<Rightarrow> nat \<Rightarrow> lexer \<Rightarrow> error + (node \<times> lexer)"
  and map_cases ::
    "util \<Rightarrow> nat \<Rightarrow> lexer \<Rightarrow> (node \<times> node) list \<Rightarrow> error + ((node \<times> node) list \<times> lexer)"
  and expression :: "util \<Rightarrow> nat \<Rightarrow> lexer \<Rightarrow> error + (node \<times> lexer)"
  and statement :: "util \<Rightarrow> nat \<Rightarrow> lexer \<Rightarrow> error + (node \<times> lexer)"
where
  "let_fn u 0 lx = Inl Out_of_fuel"
| "let_fn u (Suc n) lx =
     (let lx1 = advance mode_normal lx in
      if type (peek mode_normal lx1) \<noteq> TOKEN_IDENTIFIER then
        Inl (Parse_error ''function declaration does not have a name.'')
      else
        (let identifier = view (peek mode_normal lx1);
             lx2 = advance mode_normal lx1
         in case
              (if type (peek mode_normal lx2) = TOKEN_LPAREN then
                 (case let_parameters (advance mode_normal lx2) [] of
                    Inl e \<Rightarrow> Inl e
                  | Inr (parameters, lx3) \<Rightarrow>
                      if peek_is_reserved_name (peek mode_normal lx3) then
                        Inl (Parse_error (''parameter name ''
                          @ [CHR 0x27] @ view (peek mode_normal lx3) @ [CHR 0x27]
                          @ '' conflicts with keyword.''))
                      else if type (peek mode_normal lx3) \<noteq> TOKEN_RPAREN then
                        Inl (Parse_error ''expecting ')' to follow argument list.'')
                      else Inr (parameters, advance mode_normal lx3))
               else Inr ([], lx2)) of
              Inl e \<Rightarrow> Inl e
            | Inr (parameters, lx4) \<Rightarrow>
                (case expression u n lx4 of
                   Inl e \<Rightarrow> Inl e
                 | Inr (body, lx5) \<Rightarrow> Inr (Fn identifier parameters body, lx5))))"
| "var u 0 lx = Inl Out_of_fuel"
| "var u (Suc n) lx =
     (let lx1 = advance mode_normal lx in
      if type (peek mode_normal lx1) \<noteq> TOKEN_IDENTIFIER then
        Inl (Parse_error ''variable declaration does not have a name.'')
      else
        (let identifier = view (peek mode_normal lx1);
             lx2 = advance mode_normal lx1
         in case expression u n lx2 of
              Inl e \<Rightarrow> Inl e
            | Inr (body, lx3) \<Rightarrow> Inr (Var identifier body, lx3)))"
| "codeify u 0 lx = Inl Out_of_fuel"
| "codeify u (Suc n) lx =
     (let lx1 = advance mode_normal lx in
      if \<not> peek_is_expr (peek mode_normal lx1) then
        Inl (Parse_error ''expecting an expression to follow =.'')
      else
        (case expression u n lx1 of
           Inl e \<Rightarrow> Inl e
         | Inr (expr, lx2) \<Rightarrow> Inr (Codeify expr, lx2)))"
| "drop_stmt u 0 lx = Inl Out_of_fuel"
| "drop_stmt u (Suc n) lx =
     (let lx1 = advance mode_normal lx in
      case fninvoke u n lx1 of
        Inl e \<Rightarrow> Inl e
      | Inr (call_expr, lx2) \<Rightarrow> Inr (Drop call_expr, lx2))"
| "fninvoke u 0 lx = Inl Out_of_fuel"
| "fninvoke u (Suc n) lx =
     (let fn_token = peek mode_normal lx;
          lx1 = advance mode_normal lx
      in case
           (if type (peek mode_normal lx1) = TOKEN_LPAREN then
              (case fninvoke_arguments u n (advance mode_normal lx1) [] of
                 Inl e \<Rightarrow> Inl e
               | Inr (arguments, lx2) \<Rightarrow>
                   if type (peek mode_normal lx2) \<noteq> TOKEN_RPAREN then
                     Inl (Parse_error ''expecting ')' to follow argument list.'')
                   else Inr (arguments, advance mode_normal lx2))
            else Inr ([], lx1)) of
           Inl e \<Rightarrow> Inl e
         | Inr (arguments, lx3) \<Rightarrow>
             if peek_is_intrinsic fn_token then
               Inr (Intrinsic (type fn_token) (view fn_token) arguments, lx3)
             else Inr (FnInvoke (view fn_token) arguments, lx3))"
| "fninvoke_arguments u 0 lx arguments = Inl Out_of_fuel"
| "fninvoke_arguments u (Suc n) lx arguments =
     (if peek_is_expr (peek mode_normal lx) then
        (case expression u n lx of
           Inl e \<Rightarrow> Inl e
         | Inr (expr, lx1) \<Rightarrow>
             if type (peek mode_normal lx1) = TOKEN_COMMA then
               fninvoke_arguments u n (advance mode_normal lx1) (arguments @ [expr])
             else if type (peek mode_normal lx1) \<noteq> TOKEN_RPAREN then
               Inl (Parse_error ''expecting comma to follow parameter name.'')
             else fninvoke_arguments u n lx1 (arguments @ [expr]))
      else Inr (arguments, lx))"
| "prefix u 0 lx = Inl Out_of_fuel"
| "prefix u (Suc n) lx =
     (let lx1 = advance mode_normal lx in
      if \<not> peek_is_expr (peek mode_normal lx1) then
        Inl (Parse_error ''prefix does not have a name.'')
      else
        (case expression u n lx1 of
           Inl e \<Rightarrow> Inl e
         | Inr (expr, lx2) \<Rightarrow>
             if type (peek mode_normal lx2) \<noteq> TOKEN_LBRACE then
               Inl (Parse_error ''expecting '{' to follow name.'')
             else
               (let lx3 = advance mode_normal lx2 in
                case
                  (if type (peek mode_normal lx3) \<noteq> TOKEN_RBRACE
                   then prefix_statements u n lx3 [] else Inr ([], lx3)) of
                  Inl e \<Rightarrow> Inl e
                | Inr (statements, lx4) \<Rightarrow>
                    if type (peek mode_normal lx4) \<noteq> TOKEN_RBRACE then
                      Inl (Parse_error ''prefix is unterminated.'')
                    else Inr (Pre [expr] statements, advance mode_normal lx4))))"
| "prefix_statements u 0 lx statements = Inl Out_of_fuel"
| "prefix_statements u (Suc n) lx statements =
     (case statement u n lx of
        Inl e \<Rightarrow> Inl e
      | Inr (stmt, lx1) \<Rightarrow>
          if peek_is_stmt (peek mode_normal lx1)
          then prefix_statements u n lx1 (statements @ [stmt])
          else Inr (statements @ [stmt], lx1))"
| "block u 0 lx = Inl Out_of_fuel"
| "block u (Suc n) lx =
     (let lx1 = advance mode_normal lx in
      case
        (if peek_is_stmt (peek mode_normal lx1)
         then block_statements u n lx1 [] else Inr ([], False, lx1)) of
        Inl e \<Rightarrow> Inl e
      | Inr (statements, last_is_expr, lx2) \<Rightarrow>
          if \<not> peek_is_expr (peek mode_normal lx2) \<and> last_is_expr then
            (case str_back statements of
               Inl e \<Rightarrow> Inl e
             | Inr expr \<Rightarrow>
                 if type (peek mode_normal lx2) = TOKEN_ARROW then
                   Inl (Parse_error ''map is missing test expression.'')
                 else if type (peek mode_normal lx2) \<noteq> TOKEN_RBRACE then
                   Inl (Parse_error ''block is unterminated.'')
                 else Inr (Block (butlast statements) expr, advance mode_normal lx2))
          else
            Inl (Parse_error ''expecting a trailing expression at the end of a block''))"
| "block_statements u 0 lx statements = Inl Out_of_fuel"
| "block_statements u (Suc n) lx statements =
     (let last_is_expr = peek_is_expr (peek mode_normal lx) in
      case statement u n lx of
        Inl e \<Rightarrow> Inl e
      | Inr (stmt, lx1) \<Rightarrow>
          if peek_is_stmt (peek mode_normal lx1)
          then block_statements u n lx1 (statements @ [stmt])
          else Inr (statements @ [stmt], last_is_expr, lx1))"
| "map_expr u 0 lx = Inl Out_of_fuel"
| "map_expr u (Suc n) lx =
     (let lx1 = advance mode_normal lx in
      if \<not> peek_is_expr (peek mode_normal lx1) then
        Inl (Parse_error ''expected an expression to follow `map` keyword.'')
      else
        (case expression u n lx1 of
           Inl e \<Rightarrow> Inl e
         | Inr (expr, lx2) \<Rightarrow>
             if type (peek mode_normal lx2) \<noteq> TOKEN_LBRACE then
               Inl (Parse_error ''expected '{'.'')
             else
               (case map_cases u n (advance mode_normal lx2) [] of
                  Inl e \<Rightarrow> Inl e
                | Inr (cases, lx3) \<Rightarrow>
                    (case
                       (if type (peek mode_normal lx3) = TOKEN_STAR then
                          (let lx4 = advance mode_normal lx3 in
                           if type (peek mode_normal lx4) \<noteq> TOKEN_ARROW then
                             Inl (Parse_error ''expected '->'.'')
                           else
                             (let lx5 = advance mode_normal lx4 in
                              if \<not> peek_is_expr (peek mode_normal lx5) then
                                Inl (Parse_error ''expected expression.'')
                              else
                                (case expression u n lx5 of
                                   Inl e \<Rightarrow> Inl e
                                 | Inr (default_case, lx6) \<Rightarrow> Inr (Some default_case, lx6))))
                        else Inr (None, lx3)) of
                       Inl e \<Rightarrow> Inl e
                     | Inr (default_case, lx7) \<Rightarrow>
                         if type (peek mode_normal lx7) \<noteq> TOKEN_RBRACE then
                           Inl (Parse_error ''expected '}'.'')
                         else Inr (Map expr cases default_case, advance mode_normal lx7)))))"
| "map_cases u 0 lx cases = Inl Out_of_fuel"
| "map_cases u (Suc n) lx cases =
     (if peek_is_expr (peek mode_normal lx) then
        (case expression u n lx of
           Inl e \<Rightarrow> Inl e
         | Inr (arm, lx1) \<Rightarrow>
             if type (peek mode_normal lx1) \<noteq> TOKEN_ARROW then
               Inl (Parse_error ''expected '->'.'')
             else
               (let lx2 = advance mode_normal lx1 in
                if \<not> peek_is_expr (peek mode_normal lx2) then
                  Inl (Parse_error ''expected expression.'')
                else
                  (case expression u n lx2 of
                     Inl e \<Rightarrow> Inl e
                   | Inr (hand, lx3) \<Rightarrow> map_cases u n lx3 (cases @ [(arm, hand)]))))
      else Inr (cases, lx))"
| "expression u 0 lx = Inl Out_of_fuel"
| "expression u (Suc n) lx =
     (let lookahead = peek mode_normal lx in
      case
        (if peek_is_call lookahead then fninvoke u n lx
         else if peek_is_string lookahead then string u lx
         else if type lookahead = TOKEN_LBRACE then block u n lx
         else if type lookahead = TOKEN_MAP then map_expr u n lx
         else if type lookahead = TOKEN_EQUAL then codeify u n lx
         else Inl (Parse_error ''expecting an expression.'')) of
        Inl e \<Rightarrow> Inl e
      | Inr (lhs, lx1) \<Rightarrow>
          if type (peek mode_normal lx1) = TOKEN_CAT then
            (case expression u n (advance mode_normal lx1) of
               Inl e \<Rightarrow> Inl e
             | Inr (rhs, lx2) \<Rightarrow> Inr (Concat lhs rhs, lx2))
          else Inr (lhs, lx1))"
| "statement u 0 lx = Inl Out_of_fuel"
| "statement u (Suc n) lx =
     (let lookahead = peek mode_normal lx in
      if type lookahead = TOKEN_LET then let_fn u n lx
      else if type lookahead = TOKEN_VAR then var u n lx
      else if type lookahead = TOKEN_DROP then drop_stmt u n lx
      else if type lookahead = TOKEN_PREFIX then prefix u n lx
      else if peek_is_expr lookahead then expression u n lx
      else Inl (Parse_error ''expecting a statement.''))"
  by pat_completeness auto
termination
  by (relation "measure
        (case_sum
          (case_sum
            (case_sum (\<lambda>t. fst (snd t)) (case_sum (\<lambda>t. fst (snd t)) (\<lambda>t. fst (snd t))))
            (case_sum (case_sum (\<lambda>t. fst (snd t)) (\<lambda>t. fst (snd t)))
                      (case_sum (\<lambda>t. fst (snd t)) (\<lambda>t. fst (snd t)))))
          (case_sum
            (case_sum (\<lambda>t. fst (snd t)) (case_sum (\<lambda>t. fst (snd t)) (\<lambda>t. fst (snd t))))
            (case_sum (case_sum (\<lambda>t. fst (snd t)) (\<lambda>t. fst (snd t)))
                      (case_sum (\<lambda>t. fst (snd t)) (\<lambda>t. fst (snd t))))))")
     (simp_all only: wf_measure in_measure sum.case fst_conv snd_conv lessI)

text \<open>\<open>document\<close>: statements until \<open>TOKEN_EOF\<close>.\<close>

fun document_statements ::
  "util \<Rightarrow> nat \<Rightarrow> lexer \<Rightarrow> node list \<Rightarrow> error + (node list \<times> lexer)" where
  "document_statements u 0 lx stmts = Inl Out_of_fuel"
| "document_statements u (Suc n) lx stmts =
     (if type (peek mode_normal lx) \<noteq> TOKEN_EOF then
        (case statement u n lx of
           Inl e \<Rightarrow> Inl e
         | Inr (stmt, lx1) \<Rightarrow> document_statements u n lx1 (stmts @ [stmt]))
      else Inr (stmts, lx))"

definition document :: "util \<Rightarrow> nat \<Rightarrow> lexer \<Rightarrow> error + (node \<times> lexer)" where
  "document u n lx =
     (case document_statements u n lx [] of
        Inl e \<Rightarrow> Inl e
      | Inr (stmts, lx1) \<Rightarrow> Inr (Document stmts, lx1))"

section \<open>Notions used in the statements and proofs\<close>

text \<open>No two neighbours of the list are both whitespace.\<close>

fun no_adj :: "('a \<Rightarrow> bool) \<Rightarrow> 'a list \<Rightarrow> bool" where
  "no_adj ws [] = True"
| "no_adj ws [x] = True"
| "no_adj ws (x # y # xs) = (\<not> (ws x \<and> ws y) \<and> no_adj ws (y # xs))"

text \<open>
  What the strip step of \<open>para_string\<close> is handed: no two whitespace neighbours, and
  every whitespace byte a blank.
\<close>

definition para_normal :: "(char \<Rightarrow> bool) \<Rightarrow> string \<Rightarrow> bool" where
  "para_normal ws s \<longleftrightarrow> no_adj ws s \<and> list_all (\<lambda>c. \<not> ws c \<or> c = CHR '' '') s"

text \<open>
  Hex and binary literals as the specification words them.  \<open>digits\<close> are the bytes
  of the view without the underscores.  \<open>right_groups g\<close> cuts a list into groups of
  \<open>g\<close>, counted from the right end, so that only the first group may be shorter; the
  groups stand in the order of the text.  \<open>group_value val w\<close> is the number a group
  of digits of \<open>w\<close> bits each denotes, most significant digit first, in eight bits.
\<close>

definition digits :: "string \<Rightarrow> string" where
  "digits ptr = filter (\<lambda>c. c \<noteq> CHR ''_'') ptr"

function right_groups :: "nat \<Rightarrow> 'a list \<Rightarrow> 'a list list" where
  "right_groups g ds =
     (if ds = [] \<or> g = 0 then []
      else (let r = length ds mod g; m = (if r = 0 then g else r)
            in take m ds # right_groups g (drop m ds)))"
  by pat_completeness auto
termination
  by (relation "measure (\<lambda>(g, ds). length ds)") (auto simp: Let_def)

declare right_groups.simps [simp del]

definition group_value :: "(char \<Rightarrow> byte) \<Rightarrow> nat \<Rightarrow> string \<Rightarrow> byte" where
  "group_value val w ds = foldl (\<lambda>v d. push_bit w v OR val d) 0 ds"

definition bin_digit :: "char \<Rightarrow> byte" where
  "bin_digit c = byte_of_char c - byte_of_char CHR ''0''"

definition hex_bytes :: "util \<Rightarrow> string \<Rightarrow> byte list" where
  "hex_bytes u ptr = map (group_value (hex_to_digit u) 4) (right_groups 2 (digits ptr))"

definition bin_bytes :: "string \<Rightarrow> byte list" where
  "bin_bytes ptr = map (group_value bin_digit 1) (right_groups 8 (digits ptr))"

text \<open>
  The two decoding loops are instances of one loop over the bytes of the view, last byte
  first, with \<open>g\<close> digits of \<open>w\<close> bits to the byte.
\<close>

fun pack_loop ::
  "(char \<Rightarrow> byte) \<Rightarrow> nat \<Rightarrow> nat \<Rightarrow> string \<Rightarrow> nat \<Rightarrow> byte list \<Rightarrow> error + byte list" where
  "pack_loop val g w [] counter str = Inr str"
| "pack_loop val g w (c # cs) counter str =
     (if c = CHR ''_'' then pack_loop val g w cs counter str
      else if counter mod g \<noteq> 0 then
        (case str_back str of
           Inl e \<Rightarrow> Inl e
         | Inr b \<Rightarrow> pack_loop val g w cs (counter + 1)
             (butlast str @ [b OR push_bit (counter mod g * w) (val c)]))
      else pack_loop val g w cs (counter + 1) (str @ [val c]))"

text \<open>The value of a group read from its last digit, the first of them at position \<open>k\<close>.\<close>

fun lsb_from :: "(char \<Rightarrow> byte) \<Rightarrow> nat \<Rightarrow> nat \<Rightarrow> string \<Rightarrow> byte" where
  "lsb_from val w k [] = 0"
| "lsb_from val w k (c # cs) = push_bit (k * w) (val c) OR lsb_from val w (Suc k) cs"

text \<open>
  Fuel: \<open>le_res r r'\<close> says that \<open>r'\<close> is what \<open>r\<close> becomes with more fuel;
  only running out of fuel may turn into something else.
\<close>

definition le_res :: "error + 'a \<Rightarrow> error + 'a \<Rightarrow> bool" where
  "le_res r r' \<longleftrightarrow> r = Inl Out_of_fuel \<or> r = r'"

text \<open>
  The first half of \<open>expression\<close>: the one primary expression it parses before it
  looks for the concatenation operator.
\<close>

definition primary :: "util \<Rightarrow> nat \<Rightarrow> lexer \<Rightarrow> error + (node \<times> lexer)" where
  "primary u n lx =
     (let lookahead = peek mode_normal lx in
      if peek_is_call lookahead then fninvoke u n lx
      else if peek_is_string lookahead then string u lx
      else if type lookahead = TOKEN_LBRACE then block u n lx
      else if type lookahead = TOKEN_MAP then map_expr u n lx
      else if type lookahead = TOKEN_EQUAL then codeify u n lx
      else Inl (Parse_error ''expecting an expression.''))"

text \<open>The nodes \<open>expression\<close> builds, as opposed to those of the other statements.\<close>

fun is_expression :: "node \<Rightarrow> bool" where
  "is_expression (FnInvoke identifier arguments) = True"
| "is_expression (Intrinsic kind identifier arguments) = True"
| "is_expression (String literal) = True"
| "is_expression (Block statements expr) = True"
| "is_expression (Map expr cases default_case) = True"
| "is_expression (Codeify expr) = True"
| "is_expression (Concat lhs rhs) = True"
| "is_expression (Document stmts) = False"
| "is_expression (Fn identifier parameters body) = False"
| "is_expression (Var identifier body) = False"
| "is_expression (Drop func) = False"
| "is_expression (Pre exprs statements) = False"

text \<open>Every node a parsing function can return satisfies \<open>P\<close>.\<close>

definition res_all :: "('a \<Rightarrow> bool) \<Rightarrow> error + ('a \<times> 'b) \<Rightarrow> bool" where
  "res_all P r \<longleftrightarrow> (case r of Inl e \<Rightarrow> True | Inr (v, lx) \<Rightarrow> P v)"

text \<open>The tokens of a parameter list: every name followed by its comma.\<close>

definition parameter_tokens :: "(token \<times> token) list \<Rightarrow> lexer" where
  "parameter_tokens ps = concat (map (\<lambda>(name, comma). [name, comma]) ps)"

definition well_separated :: "(token \<times> token) list \<Rightarrow> bool" where
  "well_separated ps \<longleftrightarrow>
     list_all (\<lambda>(name, comma). type name = TOKEN_IDENTIFIER \<and> type comma = TOKEN_COMMA) ps"

text \<open>A token, for the closed examples.\<close>

definition tk :: "token_type \<Rightarrow> string \<Rightarrow> token" where
  "tk t v = \<lparr>type = t, view = v\<rparr>"





section \<open>Paragraph strings: idempotence, payload and totality\<close>

lemma collapse_runs_Nil_iff: "collapse_runs ws s = [] \<longleftrightarrow> s = []"
  by (cases s) auto

lemma hd_collapse_runs: "hd (collapse_runs ws s) = hd s"
  by (cases s) auto

lemma unique_collapse_runs:
  "unique (\<lambda>lhs rhs. ws lhs \<and> ws rhs) s = collapse_runs ws s"
  by (induction "\<lambda>lhs rhs. ws lhs \<and> ws rhs" s rule: unique.induct) auto

lemma no_adj_Cons:
  "no_adj ws (x # xs) \<longleftrightarrow> (xs = [] \<or> (\<not> (ws x \<and> ws (hd xs)) \<and> no_adj ws xs))"
  by (cases xs) auto

lemma no_adj_collapse_runs: "no_adj ws (collapse_runs ws s)"
proof (induction ws s rule: collapse_runs.induct)
  case (1 ws)
  then show ?case by simp
next
  case (2 ws c cs)
  show ?case
  proof (cases "ws c")
    case True
    have "dropWhile ws cs \<noteq> [] \<Longrightarrow> \<not> ws (hd (dropWhile ws cs))"
      by (simp add: hd_dropWhile)
    with True 2 show ?thesis
      by (auto simp: no_adj_Cons collapse_runs_Nil_iff hd_collapse_runs)
  next
    case False
    with 2 show ?thesis by (simp add: no_adj_Cons)
  qed
qed

lemma no_adj_map: "(\<And>c. ws (f c) \<Longrightarrow> ws c) \<Longrightarrow> no_adj ws s \<Longrightarrow> no_adj ws (map f s)"
  by (induction ws s rule: no_adj.induct) auto

lemma no_adj_tl: "no_adj ws s \<Longrightarrow> no_adj ws (tl s)"
  by (cases s) (auto simp: no_adj_Cons)

lemma no_adj_butlast: "no_adj ws s \<Longrightarrow> no_adj ws (butlast s)"
  by (induction ws s rule: no_adj.induct) (auto simp: no_adj_Cons split: if_splits)

lemma unique_no_adj: "no_adj ws s \<Longrightarrow> unique (\<lambda>lhs rhs. ws lhs \<and> ws rhs) s = s"
  by (induction ws s rule: no_adj.induct) auto

lemma no_adj_hd_tl: "no_adj ws s \<Longrightarrow> ws (hd s) \<Longrightarrow> tl s \<noteq> [] \<Longrightarrow> \<not> ws (hd (tl s))"
  by (cases s) (auto simp: no_adj_Cons)

lemma no_adj_last_butlast:
  "no_adj ws s \<Longrightarrow> ws (last s) \<Longrightarrow> butlast s \<noteq> [] \<Longrightarrow> \<not> ws (last (butlast s))"
  by (induction ws s rule: no_adj.induct) (auto split: if_splits)

lemma no_adj_all_ws_short: "no_adj ws s \<Longrightarrow> \<forall>c\<in>set s. ws c \<Longrightarrow> length s \<le> 1"
  by (induction ws s rule: no_adj.induct) auto

lemma para_normal_str2:
  "para_normal ws (map (\<lambda>c. if ws c then CHR '' '' else c) (collapse_runs ws s))"
  unfolding para_normal_def list_all_iff
  by (auto intro!: no_adj_map no_adj_collapse_runs split: if_splits)

lemma para_normal_tl: "para_normal ws s \<Longrightarrow> para_normal ws (tl s)"
  unfolding para_normal_def by (cases s) (auto simp: no_adj_Cons)

lemma para_normal_butlast: "para_normal ws s \<Longrightarrow> para_normal ws (butlast s)"
  unfolding para_normal_def list_all_iff by (auto simp: no_adj_butlast dest: in_set_butlastD)

lemma para_normal_map_id:
  "para_normal ws s \<Longrightarrow> map (\<lambda>c. if ws c then CHR '' '' else c) s = s"
  unfolding para_normal_def by (induction s) (auto simp: no_adj_Cons)

lemma para_string_unfold:
  "para_string u s =
     (let str2 = map (\<lambda>c. if is_whitespace u c then CHR '' '' else c)
                   (collapse_runs (is_whitespace u) s) in
      if str2 = [] then Inl Undefined_behaviour
      else let str3 = (if is_whitespace u (hd str2) then tl str2 else str2) in
        if str3 = [] then Inl Undefined_behaviour
        else Inr (if is_whitespace u (last str3) then butlast str3 else str3))"
  by (simp add: para_string_def unique_collapse_runs str_front_def str_back_def Let_def
      split: list.splits)

lemma para_string_fixed:
  assumes "para_normal (is_whitespace u) y" "y \<noteq> []"
    "\<not> is_whitespace u (hd y)" "\<not> is_whitespace u (last y)"
  shows "para_string u y = Inr y"
proof -
  have "unique (\<lambda>lhs rhs. is_whitespace u lhs \<and> is_whitespace u rhs) y = y"
    using assms(1) by (simp add: para_normal_def unique_no_adj)
  moreover have "map (\<lambda>c. if is_whitespace u c then CHR '' '' else c) y = y"
    using assms(1) by (rule para_normal_map_id)
  ultimately show ?thesis
    using assms(2-4) by (cases y) (simp_all add: para_string_def str_front_def str_back_def)
qed

lemma para_string_result:
  assumes "para_string u s = Inr y"
  shows "para_normal (is_whitespace u) y \<and> y \<noteq> []
    \<and> \<not> is_whitespace u (hd y) \<and> \<not> is_whitespace u (last y)"
proof -
  define ws where "ws = is_whitespace u"
  define str2 where "str2 = map (\<lambda>c. if ws c then CHR '' '' else c) (collapse_runs ws s)"
  define str3 where "str3 = (if ws (hd str2) then tl str2 else str2)"
  from assms have ne2: "str2 \<noteq> []" and ne3: "str3 \<noteq> []"
    and y: "y = (if ws (last str3) then butlast str3 else str3)"
    by (auto simp: para_string_unfold Let_def str2_def str3_def ws_def split: if_splits)
  have n2: "para_normal ws str2"
    unfolding str2_def by (rule para_normal_str2)
  then have n3: "para_normal ws str3"
    by (simp add: str3_def para_normal_tl)
  have h3: "\<not> ws (hd str3)"
    using n2 ne3 by (auto simp: str3_def para_normal_def dest: no_adj_hd_tl)
  have bl: "butlast str3 \<noteq> []" if "ws (last str3)"
  proof
    assume "butlast str3 = []"
    with ne3 have "str3 = [last str3]"
      by (metis append_butlast_last_id append_Nil)
    then have "hd str3 = last str3"
      by (metis list.sel(1))
    with h3 that show False by simp
  qed
  have "para_normal ws y"
    using n3 by (simp add: y para_normal_butlast)
  moreover have "y \<noteq> []"
    using ne3 bl by (simp add: y)
  moreover have "\<not> ws (hd y)"
    using h3 bl by (cases str3) (auto simp: y split: if_splits)
  moreover have "\<not> ws (last y)"
    using n3 bl by (auto simp: y para_normal_def dest: no_adj_last_butlast)
  ultimately show ?thesis by (simp add: ws_def)
qed

lemma dropWhile_all: "(\<forall>c\<in>set (dropWhile P xs). P c) \<longleftrightarrow> (\<forall>c\<in>set xs. P c)"
  by (induction xs) auto

lemma collapse_runs_all_ws:
  "(\<forall>c\<in>set (collapse_runs ws s). ws c) \<longleftrightarrow> (\<forall>c\<in>set s. ws c)"
proof (induction ws s rule: collapse_runs.induct)
  case (1 ws)
  show ?case by simp
next
  case (2 ws c cs)
  show ?case
  proof (cases "ws c")
    case True
    with 2 have "(\<forall>c\<in>set (collapse_runs ws (dropWhile ws cs)). ws c) \<longleftrightarrow> (\<forall>c\<in>set cs. ws c)"
      by (simp only: dropWhile_all)
    with True show ?thesis by simp
  next
    case False
    then show ?thesis by simp
  qed
qed

lemma para_string_defined:
  assumes "\<exists>c\<in>set x. \<not> is_whitespace u c"
  shows "para_string u x = Inr (para_spec u x)"
proof -
  define ws where "ws = is_whitespace u"
  define str2 where "str2 = map (\<lambda>c. if ws c then CHR '' '' else c) (collapse_runs ws x)"
  from assms have "\<exists>c\<in>set (collapse_runs ws x). \<not> ws c"
    using collapse_runs_all_ws [of ws x] by (auto simp: ws_def)
  then have ex2: "\<exists>c\<in>set str2. \<not> ws c"
    by (auto simp: str2_def)
  then have ne2: "str2 \<noteq> []" by auto
  have ne3: "tl str2 \<noteq> []" if "ws (hd str2)"
    using ex2 that by (cases str2) auto
  show ?thesis
    using ne2 ne3
    by (cases str2)
       (auto simp: para_string_unfold para_spec_def Let_def strip_one_leading_def
          strip_one_trailing_def str2_def [symmetric] ws_def [symmetric])
qed

lemma para_string_all_whitespace:
  assumes "is_whitespace u CHR '' ''" and all: "\<forall>c\<in>set x. is_whitespace u c"
  shows "para_string u x = Inl Undefined_behaviour"
proof -
  define ws where "ws = is_whitespace u"
  define str2 where "str2 = map (\<lambda>c. if ws c then CHR '' '' else c) (collapse_runs ws x)"
  from all have "\<forall>c\<in>set (collapse_runs ws x). ws c"
    by (simp add: collapse_runs_all_ws ws_def)
  with assms(1) have a2: "\<forall>c\<in>set str2. ws c"
    by (auto simp: str2_def ws_def)
  have "no_adj ws str2"
    using para_normal_str2 [of ws x] by (simp add: para_normal_def str2_def)
  with a2 have "length str2 \<le> 1"
    by (rule no_adj_all_ws_short [rotated])
  then consider "str2 = []" | c where "str2 = [c]"
    by (cases str2) auto
  then show ?thesis
  proof cases
    case 1
    then show ?thesis
      by (simp add: para_string_unfold Let_def str2_def [symmetric] ws_def [symmetric])
  next
    case 2
    with a2 show ?thesis
      by (simp add: para_string_unfold Let_def str2_def [symmetric] ws_def [symmetric])
  qed
qed

text \<open>
  C5.  Paragraph processing is idempotent: for every string \<open>x\<close>, running
  \<open>para_string\<close> on the result of \<open>para_string\<close> gives what the first run gave,
  \<open>p(p(x)) = p(x)\<close>.  Where the first run has no result, a second run has nothing to
  work on and the outcome stays that of the first.
\<close>

theorem para_string_idempotent:
  "(case para_string u x of Inl e \<Rightarrow> Inl e | Inr y \<Rightarrow> para_string u y) = para_string u x"
proof (cases "para_string u x")
  case (Inl e)
  then show ?thesis by simp
next
  case (Inr y)
  then have "para_string u y = Inr y"
    using para_string_result [OF Inr] by (simp add: para_string_fixed)
  with Inr show ?thesis by simp
qed

theorem para_string_idempotent_witness:
  "para_string wpp_util ''  a  b   '' = Inr ''a b''
   \<and> para_string wpp_util ''a b'' = Inr ''a b''"
proof -
  have 1: "para_string wpp_util ''  a  b   '' = Inr ''a b''"
    by (simp add: para_string_def wpp_util_def ascii_whitespace_def str_front_def str_back_def)
  with para_string_idempotent [of wpp_util "''  a  b   ''"] show ?thesis
    by simp
qed

text \<open>
  C9.  Paragraph processing has a result exactly on the strings that hold a byte which
  is not whitespace: on the empty string and on a string of whitespace only, the strip
  step asks for \<open>front()\<close> or \<open>back()\<close> of an empty string, which is undefined.
  (A blank is whitespace.)
\<close>

theorem para_string_undefined_iff:
  assumes "is_whitespace u CHR '' ''"
  shows "para_string u x = Inl Undefined_behaviour \<longleftrightarrow> list_all (is_whitespace u) x"
proof
  assume "para_string u x = Inl Undefined_behaviour"
  then show "list_all (is_whitespace u) x"
    using para_string_defined [of x u] by (auto simp: list_all_iff)
next
  assume "list_all (is_whitespace u) x"
  with assms show "para_string u x = Inl Undefined_behaviour"
    by (simp add: para_string_all_whitespace list_all_iff)
qed

theorem para_string_undefined_witness:
  "para_string wpp_util [] = Inl Undefined_behaviour
   \<and> para_string wpp_util '' '' = Inl Undefined_behaviour
   \<and> para_string wpp_util '' a'' \<noteq> Inl Undefined_behaviour"
proof -
  have ws: "is_whitespace wpp_util CHR '' ''"
    by (simp add: wpp_util_def ascii_whitespace_def)
  have "list_all (is_whitespace wpp_util) []"
    and "list_all (is_whitespace wpp_util) '' ''"
    and "\<not> list_all (is_whitespace wpp_util) '' a''"
    by (simp_all add: wpp_util_def ascii_whitespace_def)
  then show ?thesis
    using para_string_undefined_iff [OF ws, of "[]"]
      para_string_undefined_iff [OF ws, of "'' ''"]
      para_string_undefined_iff [OF ws, of "'' a''"]
    by simp
qed

section \<open>Hex and binary strings: the bytes in the order of the text\<close>

lemma and_1_mod: "(n::nat) AND 1 = n mod 2"
  by (simp add: and_one_eq)

lemma and_7_mod: "(n::nat) AND 7 = n mod 8"
  using take_bit_eq_mask [of 3 n] by (simp add: take_bit_eq_mod mask_eq_exp_minus_1)

lemma hex_string_loop_pack:
  "i \<le> length ptr \<Longrightarrow>
   hex_string_loop u ptr i counter str = pack_loop (hex_to_digit u) 2 4 (rev (take i ptr)) counter str"
proof (induction i arbitrary: counter str)
  case 0
  then show ?case by simp
next
  case (Suc j)
  then have "take (Suc j) ptr = take j ptr @ [ptr ! j]"
    by (simp add: take_Suc_conv_app_nth)
  moreover have "counter mod 2 \<noteq> 0 \<Longrightarrow> counter mod 2 = 1"
    by presburger
  ultimately show ?case
    using Suc by (auto simp: Let_def and_1_mod split: sum.splits)
qed

lemma bin_string_loop_pack:
  "i \<le> length ptr \<Longrightarrow>
   bin_string_loop ptr i counter str = pack_loop bin_digit 8 1 (rev (take i ptr)) counter str"
proof (induction i arbitrary: counter str)
  case 0
  then show ?case by simp
next
  case (Suc j)
  then have "take (Suc j) ptr = take j ptr @ [ptr ! j]"
    by (simp add: take_Suc_conv_app_nth)
  then show ?case
    using Suc by (auto simp: Let_def and_7_mod bin_digit_def split: sum.splits)
qed

lemma pack_loop_digits:
  "pack_loop val g w cs counter str = pack_loop val g w (filter (\<lambda>c. c \<noteq> CHR ''_'') cs) counter str"
  by (induction val g w cs counter str rule: pack_loop.induct) (auto split: sum.splits)

lemma pack_loop_fill:
  assumes "CHR ''_'' \<notin> set cs" "0 < k" "k + length cs \<le> g" "counter mod g = k" "str \<noteq> []"
  shows "pack_loop val g w (cs @ rest) counter str =
         pack_loop val g w rest (counter + length cs)
           (butlast str @ [last str OR lsb_from val w k cs])"
  using assms
proof (induction cs arbitrary: k counter str)
  case Nil
  then show ?case by simp
next
  case (Cons c cs)
  let ?str = "butlast str @ [last str OR push_bit (k * w) (val c)]"
  show ?case
  proof (cases "cs = []")
    case True
    with Cons.prems show ?thesis
      by (simp add: str_back_def)
  next
    case False
    with Cons.prems have k1: "Suc k < g" by (cases cs) auto
    with Cons.prems have m: "Suc counter mod g = Suc k"
      by (metis mod_Suc less_not_refl)
    have "pack_loop val g w (cs @ rest) (Suc counter) ?str =
          pack_loop val g w rest (Suc counter + length cs)
            (butlast ?str @ [last ?str OR lsb_from val w (Suc k) cs])"
      using Cons.prems k1 m by (intro Cons.IH) auto
    with Cons.prems show ?thesis
      by (auto simp: str_back_def or.assoc)
  qed
qed

lemma pack_loop_group:
  assumes "CHR ''_'' \<notin> set cs" "cs \<noteq> []" "length cs \<le> g" "counter mod g = 0"
  shows "pack_loop val g w (cs @ rest) counter str =
         pack_loop val g w rest (counter + length cs) (str @ [lsb_from val w 0 cs])"
proof -
  from assms obtain c cs' where cs: "cs = c # cs'" by (cases cs) auto
  show ?thesis
  proof (cases "cs' = []")
    case True
    with cs assms show ?thesis by simp
  next
    case False
    with cs assms have g: "1 < g" by (cases cs') auto
    with assms have m: "Suc counter mod g = 1"
      by (metis One_nat_def mod_Suc mod_less less_not_refl)
    have "pack_loop val g w (cs' @ rest) (Suc counter) (str @ [val c]) =
          pack_loop val g w rest (Suc counter + length cs')
            (butlast (str @ [val c]) @ [last (str @ [val c]) OR lsb_from val w 1 cs'])"
      using assms cs g m by (intro pack_loop_fill) auto
    with cs assms show ?thesis by auto
  qed
qed

lemma right_groups_Nil [simp]: "right_groups g [] = []"
  by (simp add: right_groups.simps)

lemma right_groups_single: "ds \<noteq> [] \<Longrightarrow> length ds \<le> g \<Longrightarrow> right_groups g ds = [ds]"
  by (subst right_groups.simps) (auto simp: Let_def le_eq_less_or_eq)

lemma right_groups_snoc:
  "length grp = g \<Longrightarrow> 0 < g \<Longrightarrow> right_groups g (ds @ grp) = right_groups g ds @ [grp]"
proof (induction g ds rule: right_groups.induct)
  case (1 g ds)
  show ?case
  proof (cases "ds = []")
    case True
    with 1 have "grp \<noteq> []" by auto
    with True 1 show ?thesis by (simp add: right_groups_single)
  next
    case False
    define r where "r = length ds mod g"
    define m where "m = (if r = 0 then g else r)"
    have m_le: "m \<le> length ds"
    proof (cases "r = 0")
      case True
      with False 1 show ?thesis
        unfolding m_def r_def by (auto simp: mod_eq_0_iff_dvd dest!: dvd_imp_le)
    next
      case False
      then show ?thesis unfolding m_def r_def by simp
    qed
    have IH: "right_groups g (drop m ds @ grp) = right_groups g (drop m ds) @ [grp]"
      using 1 False by (auto simp: r_def m_def)
    have "right_groups g (ds @ grp) = take m (ds @ grp) # right_groups g (drop m (ds @ grp))"
      using 1 False by (subst right_groups.simps) (simp add: Let_def r_def m_def)
    also have "\<dots> = take m ds # right_groups g (drop m ds @ grp)"
      using m_le by simp
    also have "\<dots> = (take m ds # right_groups g (drop m ds)) @ [grp]"
      using IH by simp
    also have "take m ds # right_groups g (drop m ds) = right_groups g ds"
      using 1 False by (subst (2) right_groups.simps) (simp add: Let_def r_def m_def)
    finally show ?thesis .
  qed
qed

lemma pack_loop_right_groups:
  assumes "CHR ''_'' \<notin> set ds" "0 < g" "counter mod g = 0"
  shows "pack_loop val g w (rev ds) counter str =
         Inr (str @ rev (map (\<lambda>grp. lsb_from val w 0 (rev grp)) (right_groups g ds)))"
  using assms
proof (induction "length ds" arbitrary: ds counter str rule: less_induct)
  case less
  show ?case
  proof (cases "length ds \<le> g")
    case True
    show ?thesis
    proof (cases "ds = []")
      case True
      then show ?thesis by simp
    next
      case False
      with True less.prems
      have "pack_loop val g w (rev ds @ []) counter str =
            pack_loop val g w [] (counter + length (rev ds)) (str @ [lsb_from val w 0 (rev ds)])"
        by (intro pack_loop_group) auto
      with True False show ?thesis
        by (simp add: right_groups_single)
    qed
  next
    case False
    define ds' where "ds' = take (length ds - g) ds"
    define grp where "grp = drop (length ds - g) ds"
    have ds: "ds = ds' @ grp" and lg: "length grp = g" and ld: "length ds' < length ds"
      using False less.prems(2) by (auto simp: ds'_def grp_def)
    have "pack_loop val g w (rev grp @ rev ds') counter str =
          pack_loop val g w (rev ds') (counter + length (rev grp)) (str @ [lsb_from val w 0 (rev grp)])"
      using less.prems lg ds by (intro pack_loop_group) auto
    moreover have "pack_loop val g w (rev ds') (counter + g) (str @ [lsb_from val w 0 (rev grp)]) =
          Inr ((str @ [lsb_from val w 0 (rev grp)]) @
               rev (map (\<lambda>grp. lsb_from val w 0 (rev grp)) (right_groups g ds')))"
      using less.prems ds ld by (intro less.hyps) auto
    ultimately show ?thesis
      using lg less.prems(2) by (simp add: ds right_groups_snoc)
  qed
qed

lemma lsb_from_Suc: "lsb_from val w (Suc k) cs = push_bit w (lsb_from val w k cs)"
  by (induction cs arbitrary: k) (simp_all add: push_bit_or push_bit_push_bit add.commute)

lemma group_value_snoc:
  "group_value val w (ds @ [d]) = push_bit w (group_value val w ds) OR val d"
  by (simp add: group_value_def)

lemma lsb_from_rev: "lsb_from val w 0 (rev ds) = group_value val w ds"
proof (induction ds rule: rev_induct)
  case Nil
  then show ?case by (simp add: group_value_def)
next
  case (snoc d ds)
  then show ?case
    by (simp add: group_value_snoc lsb_from_Suc or.commute)
qed

lemma hex_string_bytes:
  "hex_string u lx [] = Inr (map char_of_byte (hex_bytes u (view (peek mode_normal lx))), advance mode_normal lx)"
proof -
  define ptr where "ptr = view (peek mode_normal lx)"
  have "hex_string_loop u ptr (length ptr) 0 [] =
        pack_loop (hex_to_digit u) 2 4 (rev (digits ptr)) 0 []"
    by (simp add: hex_string_loop_pack digits_def rev_filter)
       (rule pack_loop_digits)
  also have "\<dots> = Inr ([] @ rev (map (\<lambda>grp. lsb_from (hex_to_digit u) 4 0 (rev grp))
                (right_groups 2 (digits ptr))))"
    by (rule pack_loop_right_groups) (simp_all add: digits_def)
  finally show ?thesis
    by (simp add: hex_string_def hex_bytes_def lsb_from_rev ptr_def [symmetric])
qed

lemma bin_string_bytes:
  "bin_string lx [] = Inr (map char_of_byte (bin_bytes (view (peek mode_normal lx))), advance mode_normal lx)"
proof -
  define ptr where "ptr = view (peek mode_normal lx)"
  have "bin_string_loop ptr (length ptr) 0 [] =
        pack_loop bin_digit 8 1 (rev (digits ptr)) 0 []"
    by (simp add: bin_string_loop_pack digits_def rev_filter)
       (rule pack_loop_digits)
  also have "\<dots> = Inr ([] @ rev (map (\<lambda>grp. lsb_from bin_digit 1 0 (rev grp))
                (right_groups 8 (digits ptr))))"
    by (rule pack_loop_right_groups) (simp_all add: digits_def)
  finally show ?thesis
    by (simp add: bin_string_def bin_bytes_def lsb_from_rev ptr_def [symmetric])
qed

lemma length_right_groups_2: "length (right_groups 2 ds) = (length ds + 1) div 2"
proof (induction "2::nat" ds rule: right_groups.induct)
  case (1 ds)
  show ?case
  proof (cases "ds = []")
    case True
    then show ?thesis by simp
  next
    case False
    define m where "m = (if length ds mod 2 = 0 then 2 else (1::nat))"
    have m: "(if length ds mod 2 = 0 then 2 else length ds mod 2) = m"
      unfolding m_def by presburger
    have IH: "length (right_groups 2 (drop m ds)) = (length (drop m ds) + 1) div 2"
      using 1 [OF _ refl m [symmetric]] False by simp
    have rg: "right_groups 2 ds = take m ds # right_groups 2 (drop m ds)"
      using False by (subst right_groups.simps) (simp add: Let_def m)
    have "0 < length ds" using False by simp
    then have "Suc ((length ds - m + 1) div 2) = (length ds + 1) div 2"
      unfolding m_def by presburger
    with IH rg show ?thesis by simp
  qed
qed

lemma hd_right_groups_odd:
  "odd (length ds) \<Longrightarrow> hd (right_groups 2 ds) = [hd ds]"
  by (subst right_groups.simps) (auto simp: Let_def odd_iff_mod_2_eq_one take_Suc elim!: oddE)

lemma byte_of_char_of_byte [simp]: "byte_of_char (char_of_byte b) = b"
proof -
  have "(of_char (char_of (unat b)) :: byte) = of_nat (of_char (char_of (unat b)) :: nat)"
    by (simp only: of_nat_of_char)
  also have "\<dots> = of_nat (unat b mod 256)"
    by simp
  also have "\<dots> = b"
    using unsigned_less [of b, where ?'a = nat] by simp
  finally show ?thesis
    by (simp add: byte_of_char_def char_of_byte_def)
qed

lemma group_value_single: "group_value val w [d] = val d"
  by (simp add: group_value_def)

lemma group_value_pair: "group_value val w [hi, lo] = push_bit w (val hi) OR val lo"
  by (simp add: group_value_def)

lemma high_nibble_zero: "(x::byte) < 16 \<Longrightarrow> drop_bit 4 x = 0"
  by (simp add: drop_bit_eq_div div_word_less)

text \<open>
  C4.  A hex literal and a binary literal decode to the bytes their digits denote in the
  order of the text: the underscores are skipped, the digits are grouped in twos (hex) or
  eights (binary) from the right end, each group gives one byte, and after the final
  reversal the bytes stand left to right.  The loops never fail.  The hex digits
  \<open>4869\<close> give the two bytes \<open>0x48 0x69\<close>.
\<close>

theorem hex_bin_string_natural_order:
  "hex_string u lx [] =
     Inr (map char_of_byte (hex_bytes u (view (peek mode_normal lx))), advance mode_normal lx)
   \<and> bin_string lx [] =
     Inr (map char_of_byte (bin_bytes (view (peek mode_normal lx))), advance mode_normal lx)
   \<and> hex_string wpp_util [\<lparr>type = TOKEN_HEX, view = ''4869''\<rparr>] [] =
     Inr (map char_of_byte [0x48, 0x69], [])"
proof (intro conjI)
  show "hex_string u lx [] =
     Inr (map char_of_byte (hex_bytes u (view (peek mode_normal lx))), advance mode_normal lx)"
    by (rule hex_string_bytes)
  show "bin_string lx [] =
     Inr (map char_of_byte (bin_bytes (view (peek mode_normal lx))), advance mode_normal lx)"
    by (rule bin_string_bytes)
  show "hex_string wpp_util [\<lparr>type = TOKEN_HEX, view = ''4869''\<rparr>] [] =
     Inr (map char_of_byte [0x48, 0x69], [])"
    by (simp add: hex_string_bytes hex_bytes_def digits_def right_groups.simps
        group_value_pair wpp_util_def ascii_hex_digit_def)
qed

theorem hex_bin_string_natural_order_witness:
  "hex_string wpp_util [\<lparr>type = TOKEN_HEX, view = ''4_86_9''\<rparr>] [] =
     Inr (map char_of_byte [0x48, 0x69], [])
   \<and> bin_string [\<lparr>type = TOKEN_BIN, view = ''0100_1000_0110_1001''\<rparr>] [] =
     Inr (map char_of_byte [0x48, 0x69], [])"
  using hex_bin_string_natural_order
    [of wpp_util "[\<lparr>type = TOKEN_HEX, view = ''4_86_9''\<rparr>]"]
    hex_bin_string_natural_order
    [of wpp_util "[\<lparr>type = TOKEN_BIN, view = ''0100_1000_0110_1001''\<rparr>]"]
  by (simp add: hex_bytes_def bin_bytes_def digits_def right_groups.simps group_value_def
      bin_digit_def byte_of_char_def wpp_util_def ascii_hex_digit_def)

text \<open>
  C10.  A hex literal with an odd number \<open>n\<close> of digits is decoded, never
  rejected: the payload has \<open>(n + 1) div 2\<close> bytes, and its first byte is the value
  of the leftmost digit alone, so its high nibble is zero (the value of a hex digit being
  below 16).
\<close>

theorem hex_string_odd_digits:
  assumes "odd (length (digits (view (peek mode_normal lx))))"
  shows "\<exists>str. hex_string u lx [] = Inr (str, advance mode_normal lx)
     \<and> length str = (length (digits (view (peek mode_normal lx))) + 1) div 2
     \<and> byte_of_char (hd str) = hex_to_digit u (hd (digits (view (peek mode_normal lx))))
     \<and> (hex_to_digit u (hd (digits (view (peek mode_normal lx)))) < 16
          \<longrightarrow> drop_bit 4 (byte_of_char (hd str)) = 0)"
proof -
  define ds where "ds = digits (view (peek mode_normal lx))"
  define str where "str = map char_of_byte (hex_bytes u (view (peek mode_normal lx)))"
  have rg: "right_groups 2 ds \<noteq> []"
    using assms length_right_groups_2 [of ds] by (auto simp: ds_def elim!: oddE)
  have "hex_string u lx [] = Inr (str, advance mode_normal lx)"
    by (simp add: str_def hex_string_bytes)
  moreover have "length str = (length ds + 1) div 2"
    by (simp add: str_def hex_bytes_def length_right_groups_2 ds_def)
  moreover have hd: "byte_of_char (hd str) = hex_to_digit u (hd ds)"
    using assms rg
    by (simp add: str_def hex_bytes_def ds_def [symmetric] hd_map hd_right_groups_odd
        group_value_single)
  moreover have "hex_to_digit u (hd ds) < 16 \<longrightarrow> drop_bit 4 (byte_of_char (hd str)) = 0"
    by (simp add: hd high_nibble_zero)
  ultimately show ?thesis
    unfolding ds_def by blast
qed

theorem hex_string_odd_digits_witness:
  "\<exists>str. hex_string wpp_util [\<lparr>type = TOKEN_HEX, view = ''8_69''\<rparr>] [] = Inr (str, [])
     \<and> length str = Suc (Suc 0) \<and> byte_of_char (hd str) = 8
     \<and> drop_bit 4 (byte_of_char (hd str)) = 0"
proof -
  have "odd (length (digits (view (peek mode_normal [\<lparr>type = TOKEN_HEX, view = ''8_69''\<rparr>]))))"
    by (simp add: digits_def)
  from hex_string_odd_digits [OF this, of wpp_util] show ?thesis
    by (simp add: digits_def wpp_util_def ascii_hex_digit_def)
qed

section \<open>The parser: fuel, concatenation, blocks and parameter lists\<close>

lemma le_res_refl: "le_res r r"
  by (simp add: le_res_def)

lemma le_res_fuel: "le_res (Inl Out_of_fuel) r"
  by (simp add: le_res_def)

lemma le_res_bind:
  "le_res x x' \<Longrightarrow> (\<And>v. le_res (k v) (k' v)) \<Longrightarrow>
   le_res (case x of Inl e \<Rightarrow> Inl e | Inr v \<Rightarrow> k v) (case x' of Inl e \<Rightarrow> Inl e | Inr v \<Rightarrow> k' v)"
  by (auto simp: le_res_def split: sum.splits)

lemma le_res_if:
  "(c \<Longrightarrow> le_res a a') \<Longrightarrow> (\<not> c \<Longrightarrow> le_res b b') \<Longrightarrow>
   le_res (if c then a else b) (if c then a' else b')"
  by simp

lemma le_res_prod:
  "(\<And>a b. le_res (f a b) (f' a b)) \<Longrightarrow> le_res (case p of (a, b) \<Rightarrow> f a b) (case p of (a, b) \<Rightarrow> f' a b)"
  by (cases p) simp

lemma le_res_let:
  "(\<And>v. le_res (f v) (f' v)) \<Longrightarrow> le_res (Let x f) (Let x f')"
  by (simp add: Let_def)

lemmas le_res_intros = le_res_bind le_res_if le_res_prod le_res_let le_res_refl

lemma let_fn_fuel_step:
  assumes "\<And>lx. le_res (expression u n lx) (expression u (Suc n) lx)"
  shows "le_res (let_fn u (Suc n) lx) (let_fn u (Suc (Suc n)) lx)"
  by (subst let_fn.simps(2), subst let_fn.simps(2)) (intro le_res_intros assms)

lemma var_fuel_step:
  assumes "\<And>lx. le_res (expression u n lx) (expression u (Suc n) lx)"
  shows "le_res (var u (Suc n) lx) (var u (Suc (Suc n)) lx)"
  by (subst var.simps(2), subst var.simps(2)) (intro le_res_intros assms)

lemma codeify_fuel_step:
  assumes "\<And>lx. le_res (expression u n lx) (expression u (Suc n) lx)"
  shows "le_res (codeify u (Suc n) lx) (codeify u (Suc (Suc n)) lx)"
  by (subst codeify.simps(2), subst codeify.simps(2)) (intro le_res_intros assms)

lemma drop_stmt_fuel_step:
  assumes "\<And>lx. le_res (fninvoke u n lx) (fninvoke u (Suc n) lx)"
  shows "le_res (drop_stmt u (Suc n) lx) (drop_stmt u (Suc (Suc n)) lx)"
  by (subst drop_stmt.simps(2), subst drop_stmt.simps(2)) (intro le_res_intros assms)

lemma fninvoke_fuel_step:
  assumes "\<And>lx acc. le_res (fninvoke_arguments u n lx acc) (fninvoke_arguments u (Suc n) lx acc)"
  shows "le_res (fninvoke u (Suc n) lx) (fninvoke u (Suc (Suc n)) lx)"
  by (subst fninvoke.simps(2), subst fninvoke.simps(2)) (intro le_res_intros assms)

lemma fninvoke_arguments_fuel_step:
  assumes "\<And>lx. le_res (expression u n lx) (expression u (Suc n) lx)"
    and "\<And>lx acc. le_res (fninvoke_arguments u n lx acc) (fninvoke_arguments u (Suc n) lx acc)"
  shows "le_res (fninvoke_arguments u (Suc n) lx acc) (fninvoke_arguments u (Suc (Suc n)) lx acc)"
  by (subst fninvoke_arguments.simps(2), subst fninvoke_arguments.simps(2)) (intro le_res_intros assms)

lemma prefix_fuel_step:
  assumes "\<And>lx. le_res (expression u n lx) (expression u (Suc n) lx)"
    and "\<And>lx acc. le_res (prefix_statements u n lx acc) (prefix_statements u (Suc n) lx acc)"
  shows "le_res (prefix u (Suc n) lx) (prefix u (Suc (Suc n)) lx)"
  by (subst prefix.simps(2), subst prefix.simps(2)) (intro le_res_intros assms)

lemma prefix_statements_fuel_step:
  assumes "\<And>lx. le_res (statement u n lx) (statement u (Suc n) lx)"
    and "\<And>lx acc. le_res (prefix_statements u n lx acc) (prefix_statements u (Suc n) lx acc)"
  shows "le_res (prefix_statements u (Suc n) lx acc) (prefix_statements u (Suc (Suc n)) lx acc)"
  by (subst prefix_statements.simps(2), subst prefix_statements.simps(2)) (intro le_res_intros assms)

lemma block_fuel_step:
  assumes "\<And>lx acc. le_res (block_statements u n lx acc) (block_statements u (Suc n) lx acc)"
  shows "le_res (block u (Suc n) lx) (block u (Suc (Suc n)) lx)"
  by (subst block.simps(2), subst block.simps(2)) (intro le_res_intros assms)

lemma block_statements_fuel_step:
  assumes "\<And>lx. le_res (statement u n lx) (statement u (Suc n) lx)"
    and "\<And>lx acc. le_res (block_statements u n lx acc) (block_statements u (Suc n) lx acc)"
  shows "le_res (block_statements u (Suc n) lx acc) (block_statements u (Suc (Suc n)) lx acc)"
  by (subst block_statements.simps(2), subst block_statements.simps(2)) (intro le_res_intros assms)

lemma map_expr_fuel_step:
  assumes "\<And>lx. le_res (expression u n lx) (expression u (Suc n) lx)"
    and "\<And>lx acc. le_res (map_cases u n lx acc) (map_cases u (Suc n) lx acc)"
  shows "le_res (map_expr u (Suc n) lx) (map_expr u (Suc (Suc n)) lx)"
  by (subst map_expr.simps(2), subst map_expr.simps(2)) (intro le_res_intros assms)

lemma map_cases_fuel_step:
  assumes "\<And>lx. le_res (expression u n lx) (expression u (Suc n) lx)"
    and "\<And>lx acc. le_res (map_cases u n lx acc) (map_cases u (Suc n) lx acc)"
  shows "le_res (map_cases u (Suc n) lx acc) (map_cases u (Suc (Suc n)) lx acc)"
  by (subst map_cases.simps(2), subst map_cases.simps(2)) (intro le_res_intros assms)

lemma expression_fuel_step:
  assumes "\<And>lx. le_res (fninvoke u n lx) (fninvoke u (Suc n) lx)"
    and "\<And>lx. le_res (block u n lx) (block u (Suc n) lx)"
    and "\<And>lx. le_res (map_expr u n lx) (map_expr u (Suc n) lx)"
    and "\<And>lx. le_res (codeify u n lx) (codeify u (Suc n) lx)"
    and "\<And>lx. le_res (expression u n lx) (expression u (Suc n) lx)"
  shows "le_res (expression u (Suc n) lx) (expression u (Suc (Suc n)) lx)"
  by (subst expression.simps(2), subst expression.simps(2)) (intro le_res_intros assms)

lemma statement_fuel_step:
  assumes "\<And>lx. le_res (let_fn u n lx) (let_fn u (Suc n) lx)"
    and "\<And>lx. le_res (var u n lx) (var u (Suc n) lx)"
    and "\<And>lx. le_res (drop_stmt u n lx) (drop_stmt u (Suc n) lx)"
    and "\<And>lx. le_res (prefix u n lx) (prefix u (Suc n) lx)"
    and "\<And>lx. le_res (expression u n lx) (expression u (Suc n) lx)"
  shows "le_res (statement u (Suc n) lx) (statement u (Suc (Suc n)) lx)"
  by (subst statement.simps(2), subst statement.simps(2)) (intro le_res_intros assms)

lemma parser_fuel_Suc:
  "(\<forall>lx. le_res (let_fn u n lx) (let_fn u (Suc n) lx))
   \<and> (\<forall>lx. le_res (var u n lx) (var u (Suc n) lx))
   \<and> (\<forall>lx. le_res (codeify u n lx) (codeify u (Suc n) lx))
   \<and> (\<forall>lx. le_res (drop_stmt u n lx) (drop_stmt u (Suc n) lx))
   \<and> (\<forall>lx. le_res (fninvoke u n lx) (fninvoke u (Suc n) lx))
   \<and> (\<forall>lx acc. le_res (fninvoke_arguments u n lx acc) (fninvoke_arguments u (Suc n) lx acc))
   \<and> (\<forall>lx. le_res (prefix u n lx) (prefix u (Suc n) lx))
   \<and> (\<forall>lx acc. le_res (prefix_statements u n lx acc) (prefix_statements u (Suc n) lx acc))
   \<and> (\<forall>lx. le_res (block u n lx) (block u (Suc n) lx))
   \<and> (\<forall>lx acc. le_res (block_statements u n lx acc) (block_statements u (Suc n) lx acc))
   \<and> (\<forall>lx. le_res (map_expr u n lx) (map_expr u (Suc n) lx))
   \<and> (\<forall>lx acc. le_res (map_cases u n lx acc) (map_cases u (Suc n) lx acc))
   \<and> (\<forall>lx. le_res (expression u n lx) (expression u (Suc n) lx))
   \<and> (\<forall>lx. le_res (statement u n lx) (statement u (Suc n) lx))"
proof (induction n)
  case 0
  show ?case by (simp add: le_res_fuel)
next
  case (Suc n)
  then show ?case
    by (intro conjI allI let_fn_fuel_step var_fuel_step codeify_fuel_step drop_stmt_fuel_step fninvoke_fuel_step fninvoke_arguments_fuel_step prefix_fuel_step prefix_statements_fuel_step block_fuel_step block_statements_fuel_step map_expr_fuel_step map_cases_fuel_step expression_fuel_step statement_fuel_step) simp_all
qed

declare let_fn.simps [simp del] var.simps [simp del] codeify.simps [simp del] drop_stmt.simps [simp del] fninvoke.simps [simp del] fninvoke_arguments.simps [simp del] prefix.simps [simp del] prefix_statements.simps [simp del] block.simps [simp del] block_statements.simps [simp del] map_expr.simps [simp del] map_cases.simps [simp del] expression.simps [simp del] statement.simps [simp del]

lemma le_res_chain:
  assumes "\<And>n. le_res (f n) (f (Suc n))" "f n = r" "r \<noteq> Inl Out_of_fuel" "n \<le> m"
  shows "f m = r"
  using assms(4)
proof (induction m rule: dec_induct)
  case base
  show ?case by (rule assms(2))
next
  case (step k)
  with assms(1) [of k] assms(3) show ?case
    by (auto simp: le_res_def)
qed

lemma expression_Suc:
  "expression u (Suc n) lx =
     (case primary u n lx of
        Inl e \<Rightarrow> Inl e
      | Inr (lhs, lx1) \<Rightarrow>
          if type (peek mode_normal lx1) = TOKEN_CAT then
            (case expression u n (advance mode_normal lx1) of
               Inl e \<Rightarrow> Inl e
             | Inr (rhs, lx2) \<Rightarrow> Inr (Concat lhs rhs, lx2))
          else Inr (lhs, lx1))"
  by (simp add: expression.simps primary_def Let_def)

lemma primary_fuel_Suc: "le_res (primary u n lx) (primary u (Suc n) lx)"
  using parser_fuel_Suc [of u n]
  by (simp add: primary_def Let_def le_res_refl)

lemma primary_fuel_mono:
  "primary u n lx = Inr v \<Longrightarrow> n \<le> m \<Longrightarrow> primary u m lx = Inr v"
  by (rule le_res_chain [where f = "\<lambda>n. primary u n lx"]) (simp_all add: primary_fuel_Suc)

lemma expression_fuel_Suc: "le_res (expression u n lx) (expression u (Suc n) lx)"
  using parser_fuel_Suc [of u n] by blast

lemma expression_fuel_mono:
  "expression u n lx = Inr v \<Longrightarrow> n \<le> m \<Longrightarrow> expression u m lx = Inr v"
  by (rule le_res_chain [where f = "\<lambda>n. expression u n lx"]) (simp_all add: expression_fuel_Suc)

lemma block_statements_fuel_Suc:
  "le_res (block_statements u n lx acc) (block_statements u (Suc n) lx acc)"
  using parser_fuel_Suc [of u n] by blast

lemma block_statements_fuel_mono:
  "block_statements u n lx acc = Inr v \<Longrightarrow> n \<le> m \<Longrightarrow> block_statements u m lx acc = Inr v"
  by (rule le_res_chain [where f = "\<lambda>n. block_statements u n lx acc"])
     (simp_all add: block_statements_fuel_Suc)

text \<open>
  C7.  The concatenation operator is right-associative.  Let \<open>a\<close>, \<open>b\<close> and
  \<open>c\<close> be the results of parsing one primary expression each, the first two followed
  by \<open>..\<close> and the third not.  Then, given enough fuel, \<open>expression\<close> returns
  \<open>Concat a (Concat b c)\<close>: after the first primary it calls itself once for
  everything to the right of the operator.
\<close>

theorem concat_right_associative:
  assumes "primary u na lx = Inr (a, lxa)" "type (peek mode_normal lxa) = TOKEN_CAT"
    and "primary u nb (advance mode_normal lxa) = Inr (b, lxb)"
      "type (peek mode_normal lxb) = TOKEN_CAT"
    and "primary u nc (advance mode_normal lxb) = Inr (c, lxc)"
      "type (peek mode_normal lxc) \<noteq> TOKEN_CAT"
    and "max na (max nb nc) + 3 \<le> n"
  shows "expression u n lx = Inr (Concat a (Concat b c), lxc)"
proof -
  define m where "m = n - 3"
  from assms(7) have n: "n = Suc (Suc (Suc m))" and m: "na \<le> m" "nb \<le> m" "nc \<le> m"
    by (simp_all add: m_def)
  have pc: "primary u m (advance mode_normal lxb) = Inr (c, lxc)"
    using assms(5) m(3) by (rule primary_fuel_mono)
  have pb: "primary u (Suc m) (advance mode_normal lxa) = Inr (b, lxb)"
    using m(2) by (intro primary_fuel_mono [OF assms(3)]) simp
  have pa: "primary u (Suc (Suc m)) lx = Inr (a, lxa)"
    using m(1) by (intro primary_fuel_mono [OF assms(1)]) simp
  have c: "expression u (Suc m) (advance mode_normal lxb) = Inr (c, lxc)"
    by (subst expression_Suc) (simp add: pc assms(6))
  have b: "expression u (Suc (Suc m)) (advance mode_normal lxa) = Inr (Concat b c, lxc)"
    by (subst expression_Suc) (simp add: pb assms(4) c)
  show ?thesis
    unfolding n by (subst expression_Suc) (simp add: pa assms(2) b)
qed

lemma res_allD: "res_all P r \<Longrightarrow> r = Inr (v, lx) \<Longrightarrow> P v"
  by (simp add: res_all_def)

lemma res_all_Inl: "res_all P (Inl e)"
  by (simp add: res_all_def)

lemma res_all_Inr: "P v \<Longrightarrow> res_all P (Inr (v, lx))"
  by (simp add: res_all_def)

lemma res_all_bind:
  "(\<And>v. res_all P (k v)) \<Longrightarrow> res_all P (case x of Inl e \<Rightarrow> Inl e | Inr v \<Rightarrow> k v)"
  by (cases x) (simp_all add: res_all_def)

lemma res_all_if:
  "(c \<Longrightarrow> res_all P a) \<Longrightarrow> (\<not> c \<Longrightarrow> res_all P b) \<Longrightarrow> res_all P (if c then a else b)"
  by simp

lemma res_all_prod:
  "(\<And>a b. res_all P (f a b)) \<Longrightarrow> res_all P (case p of (a, b) \<Rightarrow> f a b)"
  by (cases p) simp

lemma res_all_let: "(\<And>v. res_all P (f v)) \<Longrightarrow> res_all P (Let x f)"
  by (simp add: Let_def)

lemma res_all_mono: "res_all P r \<Longrightarrow> (\<And>v. P v \<Longrightarrow> Q v) \<Longrightarrow> res_all Q r"
  by (auto simp: res_all_def split: sum.splits)

lemmas res_all_intros =
  res_all_Inl res_all_Inr res_all_bind res_all_if res_all_prod res_all_let

lemma fninvoke_is_expression: "res_all is_expression (fninvoke u n lx)"
  by (cases n; simp only: fninvoke.simps) (intro res_all_intros; simp)+

lemma string_is_expression: "res_all is_expression (string u lx)"
  unfolding string_def by (intro res_all_intros; simp)

lemma block_is_expression: "res_all is_expression (block u n lx)"
  by (cases n; simp only: block.simps) (intro res_all_intros; simp)+

lemma map_expr_is_expression: "res_all is_expression (map_expr u n lx)"
  by (cases n; simp only: map_expr.simps) (intro res_all_intros; simp)+

lemma codeify_is_expression: "res_all is_expression (codeify u n lx)"
  by (cases n; simp only: codeify.simps) (intro res_all_intros; simp)+

lemma primary_is_expression: "res_all is_expression (primary u n lx)"
  unfolding primary_def
  by (intro res_all_let res_all_if res_all_Inl fninvoke_is_expression string_is_expression
      block_is_expression map_expr_is_expression codeify_is_expression)

lemma expression_is_expression: "res_all is_expression (expression u n lx)"
proof (cases n)
  case 0
  then show ?thesis by (simp add: expression.simps res_all_Inl)
next
  case (Suc m)
  have "res_all is_expression (primary u m lx)"
    by (rule primary_is_expression)
  then show ?thesis
    unfolding Suc expression_Suc
    by (cases "primary u m lx") (auto simp: res_all_def split: sum.splits prod.splits)
qed

lemma let_fn_not_expression: "res_all (\<lambda>s. \<not> is_expression s) (let_fn u n lx)"
  by (cases n; simp only: let_fn.simps) (intro res_all_intros; simp)+

lemma var_not_expression: "res_all (\<lambda>s. \<not> is_expression s) (var u n lx)"
  by (cases n; simp only: var.simps) (intro res_all_intros; simp)+

lemma drop_stmt_not_expression: "res_all (\<lambda>s. \<not> is_expression s) (drop_stmt u n lx)"
  by (cases n; simp only: drop_stmt.simps) (intro res_all_intros; simp)+

lemma prefix_not_expression: "res_all (\<lambda>s. \<not> is_expression s) (prefix u n lx)"
  by (cases n; simp only: prefix.simps) (intro res_all_intros; simp)+

lemma keyword_not_expr:
  "type tok = TOKEN_LET \<or> type tok = TOKEN_VAR \<or> type tok = TOKEN_DROP \<or> type tok = TOKEN_PREFIX
   \<Longrightarrow> \<not> peek_is_expr tok"
  by (auto simp: peek_is_expr_def peek_is_string_def peek_is_call_def peek_is_intrinsic_def)

lemma statement_is_expression:
  "res_all (\<lambda>s. is_expression s \<longleftrightarrow> peek_is_expr (peek mode_normal lx)) (statement u n lx)"
proof (cases n)
  case 0
  then show ?thesis by (simp add: statement.simps res_all_Inl)
next
  case (Suc m)
  let ?tok = "peek mode_normal lx"
  consider "type ?tok = TOKEN_LET" | "type ?tok = TOKEN_VAR" | "type ?tok = TOKEN_DROP"
    | "type ?tok = TOKEN_PREFIX"
    | "type ?tok \<noteq> TOKEN_LET" "type ?tok \<noteq> TOKEN_VAR" "type ?tok \<noteq> TOKEN_DROP"
      "type ?tok \<noteq> TOKEN_PREFIX"
    by blast
  then show ?thesis
  proof cases
    case 1
    then have "\<not> peek_is_expr ?tok" by (simp add: keyword_not_expr)
    with 1 res_all_mono [OF let_fn_not_expression [of u m lx]] show ?thesis
      by (simp add: Suc statement.simps Let_def)
  next
    case 2
    then have "\<not> peek_is_expr ?tok" by (simp add: keyword_not_expr)
    with 2 res_all_mono [OF var_not_expression [of u m lx]] show ?thesis
      by (simp add: Suc statement.simps Let_def)
  next
    case 3
    then have "\<not> peek_is_expr ?tok" by (simp add: keyword_not_expr)
    with 3 res_all_mono [OF drop_stmt_not_expression [of u m lx]] show ?thesis
      by (simp add: Suc statement.simps Let_def)
  next
    case 4
    then have "\<not> peek_is_expr ?tok" by (simp add: keyword_not_expr)
    with 4 res_all_mono [OF prefix_not_expression [of u m lx]] show ?thesis
      by (simp add: Suc statement.simps Let_def)
  next
    case 5
    with res_all_mono [OF expression_is_expression [of u m lx]] show ?thesis
      by (simp add: Suc statement.simps Let_def res_all_Inl)
  qed
qed

lemma block_statements_result:
  "block_statements u n lx acc = Inr (stmts, flag, lx') \<Longrightarrow>
   stmts \<noteq> [] \<and> flag = is_expression (last stmts) \<and> \<not> peek_is_stmt (peek mode_normal lx')"
proof (induction n arbitrary: lx acc)
  case 0
  then show ?case by (simp add: block_statements.simps)
next
  case (Suc n)
  from Suc.prems obtain stmt lx1 where st: "statement u n lx = Inr (stmt, lx1)"
    by (cases "statement u n lx") (auto simp: block_statements.simps Let_def)
  have se: "is_expression stmt \<longleftrightarrow> peek_is_expr (peek mode_normal lx)"
    using statement_is_expression [of lx u n] st by (simp add: res_all_def)
  show ?case
  proof (cases "peek_is_stmt (peek mode_normal lx1)")
    case True
    with Suc.prems st have "block_statements u n lx1 (acc @ [stmt]) = Inr (stmts, flag, lx')"
      by (simp add: block_statements.simps Let_def)
    then show ?thesis by (rule Suc.IH)
  next
    case False
    with Suc.prems st se show ?thesis
      by (auto simp: block_statements.simps Let_def)
  qed
qed

lemma rbrace_not_expr: "type tok = TOKEN_RBRACE \<Longrightarrow> \<not> peek_is_expr tok"
  by (auto simp: peek_is_expr_def peek_is_string_def peek_is_call_def peek_is_intrinsic_def)

lemma expr_is_stmt: "peek_is_expr tok \<Longrightarrow> peek_is_stmt tok"
  by (simp add: peek_is_stmt_def)

text \<open>
  C3.  A block whose last statement is an expression succeeds; that expression leaves
  the statement list and becomes the trailing expression of the \<open>Block\<close> node.  A
  block with no statement at all, and a block whose last statement is a \<open>let\<close>,
  \<open>var\<close>, \<open>drop\<close> or \<open>prefix\<close> statement, raise the parse error
  \<open>expecting a trailing expression at the end of a block\<close>.  \<open>block_statements\<close>
  is the loop that parses the statements behind the opening brace; the closing brace is
  the token it stops at.
\<close>

theorem block_trailing_expression:
  "(\<not> peek_is_stmt (peek mode_normal (advance mode_normal lx)) \<longrightarrow>
      block u (Suc m) lx =
        Inl (Parse_error ''expecting a trailing expression at the end of a block''))
   \<and> (peek_is_stmt (peek mode_normal (advance mode_normal lx))
      \<and> block_statements u n (advance mode_normal lx) [] = Inr (statements, flag, lx')
      \<and> type (peek mode_normal lx') = TOKEN_RBRACE \<and> n \<le> m \<longrightarrow>
      block u (Suc m) lx =
        (if is_expression (last statements)
         then Inr (Block (butlast statements) (last statements), advance mode_normal lx')
         else Inl (Parse_error ''expecting a trailing expression at the end of a block'')))"
proof (intro conjI impI)
  assume "\<not> peek_is_stmt (peek mode_normal (advance mode_normal lx))"
  then show "block u (Suc m) lx =
        Inl (Parse_error ''expecting a trailing expression at the end of a block'')"
    by (simp add: block.simps Let_def)
next
  assume a: "peek_is_stmt (peek mode_normal (advance mode_normal lx))
      \<and> block_statements u n (advance mode_normal lx) [] = Inr (statements, flag, lx')
      \<and> type (peek mode_normal lx') = TOKEN_RBRACE \<and> n \<le> m"
  then have bs: "block_statements u m (advance mode_normal lx) [] = Inr (statements, flag, lx')"
    by (auto intro: block_statements_fuel_mono)
  from block_statements_result [OF bs]
  have ne: "statements \<noteq> []" and fl: "flag = is_expression (last statements)" by simp_all
  from a have "\<not> peek_is_expr (peek mode_normal lx')"
    by (simp add: rbrace_not_expr)
  with a bs ne fl show "block u (Suc m) lx =
        (if is_expression (last statements)
         then Inr (Block (butlast statements) (last statements), advance mode_normal lx')
         else Inl (Parse_error ''expecting a trailing expression at the end of a block''))"
    by (simp add: block.simps Let_def str_back_def)
qed

lemma reserved_not_identifier: "peek_is_reserved_name tok \<Longrightarrow> type tok \<noteq> TOKEN_IDENTIFIER"
  by (auto simp: peek_is_reserved_name_def peek_is_intrinsic_def peek_is_keyword_def)

lemma let_parameters_names:
  assumes "well_separated ps" "type kw \<noteq> TOKEN_IDENTIFIER"
  shows "let_parameters (parameter_tokens ps @ kw # rest) parameters =
         Inr (parameters @ map (\<lambda>(name, comma). view name) ps, kw # rest)"
  using assms(1)
proof (induction ps arbitrary: parameters)
  case Nil
  with assms(2) show ?case
    by (subst let_parameters.simps) (simp add: parameter_tokens_def)
next
  case (Cons p ps)
  obtain name comma where p: "p = (name, comma)" by (cases p)
  with Cons.prems have t: "type name = TOKEN_IDENTIFIER" "type comma = TOKEN_COMMA"
    and ws: "well_separated ps"
    by (simp_all add: well_separated_def)
  have "let_parameters (parameter_tokens (p # ps) @ kw # rest) parameters =
        let_parameters (parameter_tokens ps @ kw # rest) (parameters @ [view name])"
    by (subst let_parameters.simps) (simp add: parameter_tokens_def p t Let_def)
  with Cons.IH [OF ws] show ?case
    by (simp add: p)
qed

lemma reserved_not_separator:
  "peek_is_reserved_name tok \<Longrightarrow> type tok \<noteq> TOKEN_COMMA \<and> type tok \<noteq> TOKEN_RPAREN"
  by (auto simp: peek_is_reserved_name_def peek_is_intrinsic_def peek_is_keyword_def)

lemma let_parameters_prefix:
  assumes "well_separated ps"
  shows "let_parameters (parameter_tokens ps @ lx) parameters =
         let_parameters lx (parameters @ map (\<lambda>(name, comma). view name) ps)"
  using assms
proof (induction ps arbitrary: parameters)
  case Nil
  show ?case by (simp add: parameter_tokens_def)
next
  case (Cons p ps)
  obtain name comma where p: "p = (name, comma)" by (cases p)
  with Cons.prems have t: "type name = TOKEN_IDENTIFIER" "type comma = TOKEN_COMMA"
    and ws: "well_separated ps"
    by (simp_all add: well_separated_def)
  have "let_parameters (parameter_tokens (p # ps) @ lx) parameters =
        let_parameters (parameter_tokens ps @ lx) (parameters @ [view name])"
    by (subst let_parameters.simps) (simp add: parameter_tokens_def p t Let_def)
  with Cons.IH [OF ws] show ?case
    by (simp add: p)
qed

lemma let_parameters_no_comma:
  assumes "well_separated ps" "type p = TOKEN_IDENTIFIER" "peek_is_reserved_name kw"
  shows "let_parameters (parameter_tokens ps @ p # kw # rest) parameters =
         Inl (Parse_error ''expecting comma to follow parameter name.'')"
proof -
  have "let_parameters (p # kw # rest) ps' =
        Inl (Parse_error ''expecting comma to follow parameter name.'')" for ps'
    using assms(2) reserved_not_separator [OF assms(3)]
    by (subst let_parameters.simps) (simp add: Let_def)
  with let_parameters_prefix [OF assms(1)] show ?thesis
    by simp
qed

text \<open>
  C8 (as amended).  A \<open>let\<close> declaration with a reserved word (a keyword or the name
  of an intrinsic) in the place of a parameter name, first in the list or right behind a
  comma, the tokens before it being parameter names each with its comma, raises the parse
  error \<open>parameter name '...' conflicts with keyword.\<close>  A reserved word right
  behind a parameter name, with no comma between the two, raises
  \<open>expecting comma to follow parameter name.\<close> instead.  In both cases no \<open>Fn\<close>
  node is returned, neither by \<open>let\<close> nor by \<open>statement\<close>.
\<close>

theorem let_parameter_keyword:
  assumes "type name = TOKEN_IDENTIFIER" "type lparen = TOKEN_LPAREN"
    and "well_separated ps" "peek_is_reserved_name kw"
  shows "let_fn u (Suc n) (tok # name # lparen # parameter_tokens ps @ kw # rest) =
           Inl (Parse_error (''parameter name '' @ [CHR 0x27] @ view kw @ [CHR 0x27]
                  @ '' conflicts with keyword.''))
       \<and> (type tok = TOKEN_LET \<longrightarrow>
           statement u (Suc (Suc n)) (tok # name # lparen # parameter_tokens ps @ kw # rest) =
             Inl (Parse_error (''parameter name '' @ [CHR 0x27] @ view kw @ [CHR 0x27]
                    @ '' conflicts with keyword.'')))
       \<and> (type p = TOKEN_IDENTIFIER \<longrightarrow>
           let_fn u (Suc n) (tok # name # lparen # parameter_tokens ps @ p # kw # rest) =
             Inl (Parse_error ''expecting comma to follow parameter name.'')
           \<and> (type tok = TOKEN_LET \<longrightarrow>
               statement u (Suc (Suc n))
                 (tok # name # lparen # parameter_tokens ps @ p # kw # rest) =
                 Inl (Parse_error ''expecting comma to follow parameter name.'')))"
proof -
  have lp: "let_parameters (parameter_tokens ps @ kw # rest) [] =
        Inr ([] @ map (\<lambda>(name, comma). view name) ps, kw # rest)"
    using assms(3) reserved_not_identifier [OF assms(4)] by (rule let_parameters_names)
  have 1: "let_fn u (Suc n) (tok # name # lparen # parameter_tokens ps @ kw # rest) =
           Inl (Parse_error (''parameter name '' @ [CHR 0x27] @ view kw @ [CHR 0x27]
                  @ '' conflicts with keyword.''))"
    using assms(1,2,4) lp by (simp add: let_fn.simps Let_def)
  then have 2: "type tok = TOKEN_LET \<longrightarrow>
      statement u (Suc (Suc n)) (tok # name # lparen # parameter_tokens ps @ kw # rest) =
        Inl (Parse_error (''parameter name '' @ [CHR 0x27] @ view kw @ [CHR 0x27]
               @ '' conflicts with keyword.''))"
    by (simp add: statement.simps Let_def)
  have 3: "let_fn u (Suc n) (tok # name # lparen # parameter_tokens ps @ p # kw # rest) =
           Inl (Parse_error ''expecting comma to follow parameter name.'')"
    if "type p = TOKEN_IDENTIFIER"
    using assms(1,2) let_parameters_no_comma [OF assms(3) that assms(4), of rest "[]"]
    by (simp add: let_fn.simps Let_def)
  then have 4: "type tok = TOKEN_LET \<longrightarrow>
      statement u (Suc (Suc n)) (tok # name # lparen # parameter_tokens ps @ p # kw # rest) =
        Inl (Parse_error ''expecting comma to follow parameter name.'')"
    if "type p = TOKEN_IDENTIFIER"
    using that by (simp add: statement.simps Let_def)
  from 1 2 3 4 show ?thesis
    by blast
qed

lemma tk_simps [simp]: "type (tk t v) = t" "view (tk t v) = v"
  by (simp_all add: tk_def)

theorem let_parameter_keyword_witness:
  "statement wpp_util 2
     [tk TOKEN_LET ''let'', tk TOKEN_IDENTIFIER ''f'', tk TOKEN_LPAREN ''('',
      tk TOKEN_IDENTIFIER ''x'', tk TOKEN_COMMA '','', tk TOKEN_LET ''let'', tk TOKEN_RPAREN '')'',
      tk TOKEN_IDENTIFIER ''x''] =
   Inl (Parse_error ''parameter name 'let' conflicts with keyword.'')
   \<and> statement wpp_util 2
     [tk TOKEN_LET ''let'', tk TOKEN_IDENTIFIER ''f'', tk TOKEN_LPAREN ''('',
      tk TOKEN_IDENTIFIER ''x'', tk TOKEN_COMMA '','', tk TOKEN_IDENTIFIER ''y'',
      tk TOKEN_LET ''let'', tk TOKEN_RPAREN '')'', tk TOKEN_IDENTIFIER ''x''] =
   Inl (Parse_error ''expecting comma to follow parameter name.'')"
proof -
  have "well_separated [(tk TOKEN_IDENTIFIER ''x'', tk TOKEN_COMMA '','')]"
    by (simp add: well_separated_def)
  moreover have "peek_is_reserved_name (tk TOKEN_LET ''let'')"
    by (simp add: peek_is_reserved_name_def peek_is_keyword_def)
  ultimately show ?thesis
    using let_parameter_keyword [of "tk TOKEN_IDENTIFIER ''f''" "tk TOKEN_LPAREN ''(''"
        "[(tk TOKEN_IDENTIFIER ''x'', tk TOKEN_COMMA '','')]" "tk TOKEN_LET ''let''"
        wpp_util 0 "tk TOKEN_LET ''let''" "[tk TOKEN_RPAREN '')'', tk TOKEN_IDENTIFIER ''x'']"
        "tk TOKEN_IDENTIFIER ''y''"]
    by (simp add: parameter_tokens_def numeral_2_eq_2)
qed

text \<open>
  \<open>let f(x var) x\<close>: the parameter list contains the keyword \<open>var\<close>, and the
  error is the one of the missing comma.
\<close>

theorem let_parameter_keyword_counterexample:
  "statement wpp_util 2
     [tk TOKEN_LET ''let'', tk TOKEN_IDENTIFIER ''f'', tk TOKEN_LPAREN ''('',
      tk TOKEN_IDENTIFIER ''x'', tk TOKEN_VAR ''var'', tk TOKEN_RPAREN '')'',
      tk TOKEN_IDENTIFIER ''x''] =
   Inl (Parse_error ''expecting comma to follow parameter name.'')"
  by (simp add: numeral_2_eq_2 statement.simps let_fn.simps let_parameters.simps Let_def
      eof_token_def)

lemmas token_class_defs =
  peek_is_call_def peek_is_string_def peek_is_expr_def peek_is_stmt_def peek_is_intrinsic_def
  peek_is_keyword_def peek_is_reserved_name_def

lemma fninvoke_plain:
  "fninvoke u (Suc n) (tk TOKEN_IDENTIFIER name # tk t v # rest) =
     (if t = TOKEN_LPAREN then fninvoke u (Suc n) (tk TOKEN_IDENTIFIER name # tk t v # rest)
      else Inr (FnInvoke name [], tk t v # rest))"
  by (simp add: fninvoke.simps Let_def token_class_defs)

lemma fninvoke_last: "fninvoke u (Suc n) [tk TOKEN_IDENTIFIER name] = Inr (FnInvoke name [], [])"
  by (simp add: fninvoke.simps Let_def token_class_defs eof_token_def)

lemma primary_identifier:
  "t \<noteq> TOKEN_LPAREN \<Longrightarrow>
   primary u (Suc n) (tk TOKEN_IDENTIFIER name # tk t v # rest) = Inr (FnInvoke name [], tk t v # rest)"
  by (simp add: primary_def Let_def fninvoke.simps token_class_defs)

lemma primary_identifier_last:
  "primary u (Suc n) [tk TOKEN_IDENTIFIER name] = Inr (FnInvoke name [], [])"
  by (simp add: primary_def Let_def fninvoke.simps token_class_defs eof_token_def)

theorem concat_right_associative_witness:
  "expression wpp_util 4
     [tk TOKEN_IDENTIFIER ''a'', tk TOKEN_CAT ''..'', tk TOKEN_IDENTIFIER ''b'', tk TOKEN_CAT ''..'',
      tk TOKEN_IDENTIFIER ''c''] =
   Inr (Concat (FnInvoke ''a'' []) (Concat (FnInvoke ''b'' []) (FnInvoke ''c'' [])), [])"
  by (rule concat_right_associative [where na = 1 and nb = 1 and nc = 1
        and lxa = "[tk TOKEN_CAT ''..'', tk TOKEN_IDENTIFIER ''b'', tk TOKEN_CAT ''..'',
                    tk TOKEN_IDENTIFIER ''c'']"
        and lxb = "[tk TOKEN_CAT ''..'', tk TOKEN_IDENTIFIER ''c'']"])
     (simp_all add: primary_identifier primary_identifier_last eof_token_def)

lemma statement_identifier:
  "t \<noteq> TOKEN_LPAREN \<Longrightarrow> t \<noteq> TOKEN_CAT \<Longrightarrow>
   statement u (Suc (Suc (Suc n))) (tk TOKEN_IDENTIFIER name # tk t v # rest) =
     Inr (FnInvoke name [], tk t v # rest)"
  by (simp add: statement.simps expression_Suc primary_identifier Let_def token_class_defs)

theorem block_trailing_expression_witness:
  "block wpp_util 7
     [tk TOKEN_LBRACE ''{'', tk TOKEN_IDENTIFIER ''x'', tk TOKEN_IDENTIFIER ''y'', tk TOKEN_RBRACE ''}''] =
     Inr (Block [FnInvoke ''x'' []] (FnInvoke ''y'' []), [])
   \<and> block wpp_util 7 [tk TOKEN_LBRACE ''{'', tk TOKEN_RBRACE ''}''] =
     Inl (Parse_error ''expecting a trailing expression at the end of a block'')"
proof -
  let ?lx = "[tk TOKEN_LBRACE ''{'', tk TOKEN_IDENTIFIER ''x'', tk TOKEN_IDENTIFIER ''y'',
              tk TOKEN_RBRACE ''}'']"
  have bs: "block_statements wpp_util 6 (advance mode_normal ?lx) [] =
        Inr ([FnInvoke ''x'' [], FnInvoke ''y'' []], True, [tk TOKEN_RBRACE ''}''])"
    by (simp add: eval_nat_numeral block_statements.simps statement_identifier Let_def
        token_class_defs)
  have 1: "block wpp_util 7 ?lx = Inr (Block [FnInvoke ''x'' []] (FnInvoke ''y'' []), [])"
    using block_trailing_expression [of ?lx wpp_util 6 6 "[FnInvoke ''x'' [], FnInvoke ''y'' []]"
        True "[tk TOKEN_RBRACE ''}'']"] bs
    by (simp add: token_class_defs eval_nat_numeral)
  have 2: "block wpp_util 7 [tk TOKEN_LBRACE ''{'', tk TOKEN_RBRACE ''}''] =
     Inl (Parse_error ''expecting a trailing expression at the end of a block'')"
    using block_trailing_expression [of "[tk TOKEN_LBRACE ''{'', tk TOKEN_RBRACE ''}'']" wpp_util 6]
    by (simp add: token_class_defs eval_nat_numeral)
  from 1 2 show ?thesis by simp
qed

section \<open>Smart strings: where the literal ends\<close>






text \<open>
  A quote with an escape behind it has a backslash behind it in the source: with the
  delimiter \<open>4\<close> the paragraph string does not end before the hex escape
  \<open>41\<close>, which becomes the byte \<open>A\<close> of the payload.
\<close>

lemma smart_string_escape_behind_quote:
  "smart_string wpp_util
     [tk TOKEN_SMART ''p4'', tk TOKEN_DOUBLEQUOTE [CHR 0x22], tk TOKEN_CHAR ''a'',
      tk TOKEN_DOUBLEQUOTE [CHR 0x22], tk TOKEN_ESCAPE_HEX ''41'', tk TOKEN_DOUBLEQUOTE [CHR 0x22],
      tk TOKEN_CHAR ''4'', tk TOKEN_RPAREN '')''] [] =
   Inr ([CHR ''a'', CHR 0x22, CHR ''A''], [tk TOKEN_RPAREN '')''])"
  by (simp add: smart_string_def smart_string_loop.simps accumulate_string_def Let_def
      source_text_def is_escape_def tk_def eof_token_def para_string_def str_front_def
      str_back_def wpp_util_def ascii_whitespace_def ascii_hex_digit_def char_of_byte_def
      char_of_def bit_Suc_0_iff)

section \<open>Code and paragraph strings on edge inputs\<close>

lemmas code_string_eval =
  code_string_def wpp_util_def ascii_whitespace_def NUL_def deref_def INT_MAX_def Let_def

text \<open>
  C2.  The example of the specification holds: three blanks of common indentation are
  stripped and the trailing newline is trimmed.  The general description does not hold
  on a code string with a blank line.  In the first string below the line between the two
  statements is empty: the newline that ends it is counted with the two blanks behind
  it as indentation (\<open>common_indent\<close> becomes 3) and is stripped with them, so the
  empty line is lost.  In the second the third line holds one blank: after the strip behind the second
  newline the loop's \<open>++ptr\<close> steps over the third newline, and the last line keeps
  its indentation, against the comment
  \<open>Remove leading indentation on each line up to common_indent amount\<close>.
\<close>

theorem code_string_blank_line:
  "code_string wpp_util
     [CHR '' '', CHR '' '', CHR ''x'', CHR '';'', CHR 0x0A, CHR 0x0A, CHR '' '', CHR '' '', CHR ''y'', CHR '';'']
     = Inr [CHR ''x'', CHR '';'', CHR 0x0A, CHR ''y'', CHR '';'']
   \<and> code_string wpp_util
     [CHR ''a'', CHR 0x0A, CHR '' '', CHR ''b'', CHR 0x0A, CHR '' '', CHR 0x0A, CHR '' '', CHR ''c'']
     = Inr [CHR ''a'', CHR 0x0A, CHR ''b'', CHR 0x0A, CHR 0x0A, CHR '' '', CHR ''c'']"
  by (simp add: code_string_eval)

lemma code_string_example:
  "code_string wpp_util
     ('' ''  @ '' '' @ '' '' @ ''int x = 1;'' @ [CHR 0x0A] @ ''   int y = 2;'' @ [CHR 0x0A])
     = Inr (''int x = 1;'' @ [CHR 0x0A] @ ''int y = 2;'')"
  by (simp add: code_string_eval)

text \<open>
  C6.  On the paragraph string that holds one blank, and on the empty one, the strip step
  reads \<open>back()\<close> or \<open>front()\<close> of an empty string, where the description of the
  specification gives the empty payload.  On every string with a byte that is not
  whitespace \<open>para_string\<close> returns the described payload (\<open>para_string_defined\<close>).
\<close>

theorem para_string_blank:
  "para_string wpp_util '' '' = Inl Undefined_behaviour
   \<and> para_spec wpp_util '' '' = []
   \<and> para_string wpp_util [] = Inl Undefined_behaviour
   \<and> para_spec wpp_util [] = []"
  by (simp add: para_string_def para_spec_def wpp_util_def ascii_whitespace_def str_front_def
      str_back_def strip_one_leading_def strip_one_trailing_def)

end
